theory Spec2Isabelle
  imports Main "HOL-Library.Char_ord" "HOL-Library.List_Lexorder" "HOL-Library.AList"
begin

section \<open>Values, errors and Python's comparisons\<close>

text \<open>
  Cells of a table are Python objects. The embedding covers \<open>None\<close>, integers, strings and
  lists of cells (the lists are what \<open>group_by\<close> stores). Python's \<open>==\<close> on these objects is
  structural equality, so it is HOL's \<open>=\<close> on \<open>val\<close>.
\<close>

datatype val = VNone | VInt int | VStr string | VList "val list"

text \<open>Every exception the modelled code can raise is a value.\<close>

datatype error = AssertionError | TypeError | KeyError | IndexError | AttributeError

text \<open>
  Python's \<open><\<close>: defined between two integers, two strings (lexicographic on the characters)
  and two sequences (lexicographic: the first position where the elements differ under \<open>==\<close>
  decides, by \<open><\<close> on those two elements; a proper prefix is smaller). Every other pair raises
  \<open>TypeError\<close>, here \<open>None\<close>. Tuples and lists compare alike, so \<open>seq_lt\<close> serves both.
\<close>

fun val_lt :: "val \<Rightarrow> val \<Rightarrow> bool option"
  and seq_lt :: "val list \<Rightarrow> val list \<Rightarrow> bool option" where
  "val_lt (VInt a) (VInt b) = Some (a < b)"
| "val_lt (VStr a) (VStr b) = Some (a < b)"
| "val_lt (VList a) (VList b) = seq_lt a b"
| "val_lt _ _ = None"
| "seq_lt [] [] = Some False"
| "seq_lt [] (y # ys) = Some True"
| "seq_lt (x # xs) [] = Some False"
| "seq_lt (x # xs) (y # ys) = (if x = y then seq_lt xs ys else val_lt x y)"

text \<open>Lists are unhashable; a tuple is hashable when all its items are.\<close>

fun hashable :: "val \<Rightarrow> bool" where
  "hashable (VList xs) = False"
| "hashable _ = True"

section \<open>The builtins \<open>sorted\<close> and \<open>zip\<close>\<close>

text \<open>
  \<open>sorted(xs, key=f, reverse=r)\<close> is a stable sort that compares the keys with \<open><\<close> only. An
  exception of a comparison propagates; every element is compared with a neighbour of the
  final order, so the call raises \<open>TypeError\<close> exactly when two keys do not compare. With
  \<open>reverse\<close> the order is descending and equal keys still keep their original order.
\<close>

definition comparable :: "val list list \<Rightarrow> bool" where
  "comparable ks = (\<forall>a \<in> set ks. \<forall>b \<in> set ks. seq_lt a b \<noteq> None)"

fun insort_lt :: "('a \<Rightarrow> val list) \<Rightarrow> 'a \<Rightarrow> 'a list \<Rightarrow> 'a list" where
  "insort_lt key x [] = [x]"
| "insort_lt key x (y # ys) =
     (if seq_lt (key y) (key x) = Some True then y # insort_lt key x ys else x # y # ys)"

definition stable_sort :: "('a \<Rightarrow> val list) \<Rightarrow> 'a list \<Rightarrow> 'a list" where
  "stable_sort key xs = foldr (insort_lt key) xs []"

definition py_sorted :: "('a \<Rightarrow> val list) \<Rightarrow> bool \<Rightarrow> 'a list \<Rightarrow> error + 'a list" where
  "py_sorted key reverse xs =
     (if \<not> comparable (map key xs) then Inl TypeError
      else Inr (if reverse then rev (stable_sort key (rev xs)) else stable_sort key xs))"

text \<open>\<open>zip(*xss)\<close>: the tuples of the i-th items, as many as the shortest argument has; none
  when there is no argument.\<close>

fun min_length :: "'a list list \<Rightarrow> nat" where
  "min_length [] = 0"
| "min_length [xs] = length xs"
| "min_length (xs # xss) = min (length xs) (min_length xss)"

definition zip_star :: "'a list list \<Rightarrow> 'a list list" where
  "zip_star xss = map (\<lambda>i. map (\<lambda>xs. xs ! i) xss) [0..<min_length xss]"

section \<open>Dictionaries and the error monad\<close>

text \<open>
  A Python \<open>dict\<close> keeps its keys in insertion order; assigning to a key that is present
  replaces the value and keeps the key's position. That is \<open>AList.update\<close> on an
  association list. \<open>dict_of\<close> is a dict comprehension (or \<open>dict(zip(...))\<close>) over the pairs.
\<close>

definition dict_of :: "('k \<times> 'v) list \<Rightarrow> ('k \<times> 'v) list" where
  "dict_of kvs = foldl (\<lambda>d (k, v). AList.update k v d) [] kvs"

definition getitem :: "('k \<times> 'v) list \<Rightarrow> 'k \<Rightarrow> error + 'v" where
  "getitem d k = (case map_of d k of None \<Rightarrow> Inl KeyError | Some v \<Rightarrow> Inr v)"

definition bind_e :: "error + 'a \<Rightarrow> ('a \<Rightarrow> error + 'b) \<Rightarrow> error + 'b" where
  "bind_e m f = (case m of Inl e \<Rightarrow> Inl e | Inr x \<Rightarrow> f x)"

fun map_e :: "('a \<Rightarrow> error + 'b) \<Rightarrow> 'a list \<Rightarrow> error + 'b list" where
  "map_e f [] = Inr []"
| "map_e f (x # xs) = bind_e (f x) (\<lambda>y. bind_e (map_e f xs) (\<lambda>ys. Inr (y # ys)))"

fun fold_e :: "('a \<Rightarrow> 's \<Rightarrow> error + 's) \<Rightarrow> 'a list \<Rightarrow> 's \<Rightarrow> error + 's" where
  "fold_e f [] s = Inr s"
| "fold_e f (x # xs) s = bind_e (f x s) (fold_e f xs)"

text \<open>\<open>xs[i]\<close> for a non-negative index.\<close>

definition index_e :: "'a list \<Rightarrow> nat \<Rightarrow> error + 'a" where
  "index_e xs i = (if i < length xs then Inr (xs ! i) else Inl IndexError)"

section \<open>The table\<close>

text \<open>
  \<open>Dataset\<close> is a subclass of \<open>dict\<close>: column names to lists of cells, in insertion order.
\<close>

type_synonym dataset = "(string \<times> val list) list"

text \<open>\<open>Dataset.__init__\<close> on a dict template (lines 23-32, \<open>sanitise_names\<close> left at its default):
  the columns must have at most one distinct length.\<close>

definition Dataset :: "dataset \<Rightarrow> error + dataset" where
  "Dataset template =
     (if length (remdups (map (\<lambda>(c, col). length col) template)) \<le> 1 then Inr template
      else Inl AssertionError)"

definition columns :: "dataset \<Rightarrow> string list" where
  "columns self = map fst self"

definition column_length :: "dataset \<Rightarrow> nat" where
  "column_length self = length (columns self)"

text \<open>\<open>rows\<close>: \<open>zip(*[self[col] for col in self])\<close>; \<open>records\<close>: each row as a dict.\<close>

definition rows :: "dataset \<Rightarrow> val list list" where
  "rows self = zip_star (map snd self)"

definition records :: "dataset \<Rightarrow> (string \<times> val) list list" where
  "records self = map (\<lambda>row. dict_of (zip (columns self) row)) (rows self)"

definition record_length :: "dataset \<Rightarrow> nat" where
  "record_length self = length (records self)"

subsection \<open>sort\<close>

definition sort_ds :: "dataset \<Rightarrow> string list \<Rightarrow> bool \<Rightarrow> error + dataset" where
  "sort_ds self names reverse =
     (if \<not> (\<forall>name \<in> set names. name \<in> set (columns self)) then Inl AssertionError
      else
        let sort_order = names @ filter (\<lambda>col. col \<notin> set names) (columns self) in
        bind_e (map_e (getitem self) sort_order) (\<lambda>cols.
        bind_e (py_sorted (take (length names)) reverse (zip_star cols)) (\<lambda>sorted_data.
        let rtn = dict_of (zip sort_order (zip_star sorted_data)) in
        bind_e (map_e (getitem rtn) sort_order) (\<lambda>vals.
        Dataset (dict_of (zip sort_order vals))))))"

subsection \<open>Construction from records\<close>

text \<open>
  \<open>Dataset.__init__\<close> on a list of records (lines 33-38). A record is a dict from column
  names to cells. The distinct key tuples are listed from a Python \<open>set\<close>, whose iteration
  order is unspecified: \<open>profiles\<close> is that list in the order Python produced it, any
  arrangement of \<open>record_profiles template\<close>. Only its first entry is read.
\<close>

definition record_profiles :: "(string \<times> val) list list \<Rightarrow> string list list" where
  "record_profiles template = remdups (map (map fst) template)"

definition Dataset_records :: "string list list \<Rightarrow> (string \<times> val) list list \<Rightarrow> error + dataset" where
  "Dataset_records profiles template =
     bind_e (index_e profiles 0) (\<lambda>profile.
       Inr (foldl (\<lambda>self col. AList.update col
              (map (\<lambda>record. case map_of record col of Some v \<Rightarrow> v | None \<Rightarrow> VNone) template) self)
            [] profile))"

subsection \<open>rename\<close>

text \<open>\<open>rename_map[c] if c in rename_map else c\<close>.\<close>

definition new_name :: "(string \<times> string) list \<Rightarrow> string \<Rightarrow> string" where
  "new_name rename_map c = (case map_of rename_map c of Some n \<Rightarrow> n | None \<Rightarrow> c)"

definition rename :: "dataset \<Rightarrow> (string \<times> string) list \<Rightarrow> error + dataset" where
  "rename self rename_map =
     bind_e (map_e (\<lambda>c. bind_e (getitem self c) (\<lambda>col. Inr (new_name rename_map c, col)))
               (columns self))
       (\<lambda>items. Dataset (dict_of items))"

subsection \<open>full\_outer\_merge\<close>

definition full_outer_merge :: "dataset \<Rightarrow> dataset \<Rightarrow> error + dataset" where
  "full_outer_merge self right =
     (if column_length self + column_length right \<noteq> length (remdups (columns self @ columns right))
      then Inl AssertionError
      else
        let left_length = record_length self; right_length = record_length right in
        bind_e (map_e (\<lambda>col. bind_e (getitem self col) (\<lambda>vs.
                  Inr (col, concat (map (replicate right_length) vs)))) (columns self)) (\<lambda>ls.
        bind_e (map_e (\<lambda>col. bind_e (getitem right col) (\<lambda>vs.
                  Inr (col, concat (replicate left_length vs)))) (columns right)) (\<lambda>rs.
        Dataset (dict_of (dict_of ls @ dict_of rs)))))"

subsection \<open>group\_by\<close>

text \<open>\<open>rtn[c].append(v)\<close>: the column is looked up first, then the value is evaluated.\<close>

definition append_col :: "dataset \<Rightarrow> string \<Rightarrow> error + val \<Rightarrow> error + dataset" where
  "append_col rtn c v =
     bind_e (getitem rtn c) (\<lambda>col. bind_e v (\<lambda>x. Inr (AList.update c (col @ [x]) rtn)))"

text \<open>\<open>rtn[o][-1].append(v)\<close>: the last cell of the column must be a list.\<close>

definition append_last :: "dataset \<Rightarrow> string \<Rightarrow> error + val \<Rightarrow> error + dataset" where
  "append_last rtn c v =
     bind_e (getitem rtn c) (\<lambda>col.
       if col = [] then Inl IndexError
       else (case last col of
               VList xs \<Rightarrow> bind_e v (\<lambda>x. Inr (AList.update c (butlast col @ [VList (xs @ [x])]) rtn))
             | _ \<Rightarrow> Inl AttributeError))"

text \<open>\<open>rtn[count][-1] = rtn[count][-1] + 1\<close>.\<close>

definition incr_last :: "dataset \<Rightarrow> string \<Rightarrow> error + dataset" where
  "incr_last rtn c =
     bind_e (getitem rtn c) (\<lambda>col.
       if col = [] then Inl IndexError
       else (case last col of
               VInt n \<Rightarrow> Inr (AList.update c (butlast col @ [VInt (n + 1)]) rtn)
             | _ \<Rightarrow> Inl TypeError))"

text \<open>One pass of the loop over \<open>sorts.records\<close> (lines 255-269); the state is
  \<open>last_grouped\<close> and \<open>rtn\<close>.\<close>

definition group_step ::
  "string list \<Rightarrow> string list \<Rightarrow> string option \<Rightarrow> (string \<times> val) list
     \<Rightarrow> val list option \<times> dataset \<Rightarrow> error + (val list option \<times> dataset)" where
  "group_step grouping_cols other_cols count rec st =
     (case st of (last_grouped, rtn) \<Rightarrow>
        bind_e (map_e (getitem rec) grouping_cols) (\<lambda>grouped.
          bind_e
            (if Some grouped = last_grouped then
               bind_e (fold_e (\<lambda>c r. append_last r c (getitem rec c)) other_cols rtn) (\<lambda>rtn1.
                 case count of None \<Rightarrow> Inr rtn1 | Some c \<Rightarrow> incr_last rtn1 c)
             else
               bind_e (fold_e (\<lambda>g r. append_col r g (getitem rec g)) grouping_cols rtn) (\<lambda>rtn1.
               bind_e (fold_e (\<lambda>c r. append_col r c
                                  (bind_e (getitem rec c) (\<lambda>x. Inr (VList [x])))) other_cols rtn1) (\<lambda>rtn2.
                 case count of None \<Rightarrow> Inr rtn2 | Some c \<Rightarrow> append_col rtn2 c (Inr (VInt 1)))))
            (\<lambda>rtn'. Inr (Some grouped, rtn'))))"

definition group_by ::
  "dataset \<Rightarrow> string list \<Rightarrow> string list option \<Rightarrow> string option \<Rightarrow> error + dataset" where
  "group_by self grouping_cols other_cols_arg count =
     (let other_cols = (case other_cols_arg of
                          None \<Rightarrow> filter (\<lambda>col. col \<notin> set grouping_cols) (columns self)
                        | Some cs \<Rightarrow> cs) in
      bind_e (sort_ds self grouping_cols False) (\<lambda>sorts.
        let rtn0 = dict_of (map (\<lambda>col. (col, []))
                     (grouping_cols @ other_cols @ (case count of None \<Rightarrow> [] | Some c \<Rightarrow> [c]))) in
        bind_e (fold_e (group_step grouping_cols other_cols count) (records sorts) (None, rtn0))
          (\<lambda>st. Dataset (snd st))))"

subsection \<open>merge\<close>

text \<open>\<open>tuple_key\<close>: the first \<open>len(on)\<close> items of a row.\<close>

definition tuple_key :: "string list \<Rightarrow> val list \<Rightarrow> error + val list" where
  "tuple_key on cols = map_e (index_e cols) [0..<length on]"

text \<open>The set of key tuples of a table's records, as a duplicate-free list; building the
  set hashes every tuple.\<close>

definition record_keys :: "string list \<Rightarrow> dataset \<Rightarrow> error + val list list" where
  "record_keys on ds =
     bind_e (map_e (\<lambda>rec. map_e (getitem rec) on) (records ds)) (\<lambda>ks.
       if list_all (list_all hashable) ks then Inr (remdups ks) else Inl TypeError)"

text \<open>The \<open>while\<close> loop of lines 327-335, from the current index on: the rows collected for
  \<open>key\<close> and the rows left for the next key.\<close>

fun gather :: "string list \<Rightarrow> val list \<Rightarrow> val list list \<Rightarrow> error + (val list list \<times> val list list)" where
  "gather on key [] = Inr ([], [])"
| "gather on key (row # zipped) =
     bind_e (tuple_key on row) (\<lambda>key_tuple.
       case seq_lt key_tuple key of
         None \<Rightarrow> Inl TypeError
       | Some True \<Rightarrow> gather on key zipped
       | Some False \<Rightarrow>
           if key_tuple = key
           then bind_e (gather on key zipped) (\<lambda>(to_add, rest). Inr (row # to_add, rest))
           else Inr ([], row # zipped))"

text \<open>The loop over \<open>all_keys\<close> for one side (lines 325-343); \<open>n\<close> is \<open>len(left_columns)\<close>.\<close>

fun organise ::
  "string \<Rightarrow> string \<Rightarrow> nat \<Rightarrow> string list \<Rightarrow> val list list \<Rightarrow> val list list
     \<Rightarrow> error + val list list list" where
  "organise which how n on [] zipped = Inr []"
| "organise which how n on (key # keys) zipped =
     bind_e (gather on key zipped) (\<lambda>(found, rest).
       let to_add = (if found = [] \<and> how \<notin> set [which, ''inner''] then [replicate n VNone]
                     else found) in
       bind_e (organise which how n on keys rest) (\<lambda>more. Inr (to_add # more)))"

text \<open>The body of the innermost loop (lines 348-357): one output row.\<close>

definition emit_row ::
  "string list \<Rightarrow> string list \<Rightarrow> string list \<Rightarrow> val list \<Rightarrow> val list \<Rightarrow> val list
     \<Rightarrow> dataset \<Rightarrow> error + dataset" where
  "emit_row on left_columns right_columns key left_add right_add rtn =
     bind_e (fold_e (\<lambda>(index, col) r. append_col r col (index_e key index))
               (List.enumerate 0 on) rtn) (\<lambda>rtn1.
     bind_e (fold_e (\<lambda>(index, col) r.
                if col \<notin> set on then append_col r col (index_e left_add index) else Inr r)
               (List.enumerate 0 left_columns) rtn1) (\<lambda>rtn2.
     fold_e (\<lambda>(index, col) r.
                if col \<notin> set on then append_col r col (index_e right_add index) else Inr r)
               (List.enumerate 0 right_columns) rtn2))"

definition emit_key ::
  "string list \<Rightarrow> string list \<Rightarrow> string list
     \<Rightarrow> val list \<times> val list list \<times> val list list \<Rightarrow> dataset \<Rightarrow> error + dataset" where
  "emit_key on left_columns right_columns entry rtn =
     (case entry of (key, left_to_add, right_to_add) \<Rightarrow>
        fold_e (\<lambda>left_add. fold_e (emit_row on left_columns right_columns key left_add)
                  right_to_add) left_to_add rtn)"

definition merge ::
  "dataset \<Rightarrow> dataset \<Rightarrow> string list option \<Rightarrow> string \<Rightarrow> error + dataset" where
  "merge self right on_arg how =
     (if how \<notin> set [''inner'', ''left'', ''right'', ''full''] then Inl AssertionError
      else case on_arg of
        None \<Rightarrow> full_outer_merge self right
      | Some on \<Rightarrow>
          bind_e (sort_ds self on False) (\<lambda>left_sorted.
          bind_e (sort_ds right on False) (\<lambda>right_sorted.
          bind_e (record_keys on left_sorted) (\<lambda>left_keys.
          bind_e (record_keys on right_sorted) (\<lambda>right_keys.
          let left_columns = columns left_sorted;
              right_columns = columns right_sorted;
              left_zipped = rows left_sorted;
              right_zipped = rows right_sorted in
          bind_e (Dataset (dict_of (map (\<lambda>col. (col, []))
                    (left_columns @ filter (\<lambda>c. c \<notin> set left_columns) right_columns)))) (\<lambda>rtn.
          bind_e (py_sorted (\<lambda>k. k) False
                    (if how = ''inner'' then filter (\<lambda>k. k \<in> set right_keys) left_keys
                     else if how = ''right'' then right_keys
                     else if how = ''left'' then left_keys
                     else remdups (left_keys @ right_keys))) (\<lambda>all_keys.
          bind_e (organise ''left'' how (length left_columns) on all_keys left_zipped)
            (\<lambda>left_organised.
          bind_e (organise ''right'' how (length left_columns) on all_keys right_zipped)
            (\<lambda>right_organised.
          fold_e (emit_key on left_columns right_columns)
            (zip all_keys (zip left_organised right_organised)) rtn)))))))))"

section \<open>Vocabulary of the statements\<close>

text \<open>Invariant I1: all columns of a table have the same length.\<close>

definition rectangular :: "dataset \<Rightarrow> bool" where
  "rectangular t = (\<forall>a \<in> set t. \<forall>b \<in> set t. length (snd a) = length (snd b))"

text \<open>The cell of column \<open>c\<close> in row \<open>j\<close>, and the key tuple of row \<open>j\<close>.\<close>

definition cell :: "dataset \<Rightarrow> string \<Rightarrow> nat \<Rightarrow> val" where
  "cell t c j = the (map_of t c) ! j"

definition row_key :: "dataset \<Rightarrow> string list \<Rightarrow> nat \<Rightarrow> val list" where
  "row_key t names j = map (\<lambda>name. cell t name j) names"

text \<open>The row indices of a table in the order a stable sort by the key columns puts them.\<close>

definition sort_perm :: "dataset \<Rightarrow> string list \<Rightarrow> bool \<Rightarrow> nat list" where
  "sort_perm t names reverse =
     (if reverse then rev (stable_sort (row_key t names) (rev [0..<record_length t]))
      else stable_sort (row_key t names) [0..<record_length t])"

text \<open>The table with the columns \<open>cs\<close> of \<open>t\<close> whose rows are the rows \<open>p\<close> of \<open>t\<close>, in that order.\<close>

definition select_rows :: "dataset \<Rightarrow> string list \<Rightarrow> nat list \<Rightarrow> dataset" where
  "select_rows t cs p = map (\<lambda>c. (c, map (cell t c) p)) cs"

text \<open>The distinct elements of a list in the order of their first occurrence.\<close>

fun uniq :: "'a list \<Rightarrow> 'a list" where
  "uniq [] = []"
| "uniq (x # xs) = x # removeAll x (uniq xs)"

text \<open>
  What \<open>group_by\<close> is specified to return. The groups are the distinct key tuples of the
  rows in ascending order; the members of a group are the rows of the table with that key,
  in their original order. A grouping column holds the key values, every other selected
  column the list of its members' cells, the count column the number of members.
\<close>

definition group_keys :: "dataset \<Rightarrow> string list \<Rightarrow> val list list" where
  "group_keys t grouping_cols = uniq (map (row_key t grouping_cols) (sort_perm t grouping_cols False))"

definition group_members :: "dataset \<Rightarrow> string list \<Rightarrow> val list \<Rightarrow> nat list" where
  "group_members t grouping_cols k =
     filter (\<lambda>j. row_key t grouping_cols j = k) [0..<record_length t]"

definition group_table :: "dataset \<Rightarrow> string list \<Rightarrow> string list \<Rightarrow> string option \<Rightarrow> dataset" where
  "group_table t grouping_cols other_cols count =
     map (\<lambda>(i, g). (g, map (\<lambda>k. k ! i) (group_keys t grouping_cols)))
         (List.enumerate 0 grouping_cols)
     @ map (\<lambda>c. (c, map (\<lambda>k. VList (map (cell t c) (group_members t grouping_cols k)))
                     (group_keys t grouping_cols))) other_cols
     @ (case count of None \<Rightarrow> []
        | Some c \<Rightarrow> [(c, map (\<lambda>k. VInt (int (length (group_members t grouping_cols k))))
                          (group_keys t grouping_cols))])"

text \<open>
  The state of the loop of \<open>group_by\<close>, read as the groups built so far: each with its key
  and the rows folded into it. \<open>add_row\<close> is one pass of the loop on that reading, and
  \<open>group_column\<close> is the column the groups give to a column name.
\<close>

definition add_row ::
  "(nat \<Rightarrow> val list) \<Rightarrow> (val list \<times> nat list) list \<Rightarrow> nat \<Rightarrow> (val list \<times> nat list) list" where
  "add_row key gs j =
     (if gs \<noteq> [] \<and> fst (last gs) = key j then butlast gs @ [(key j, snd (last gs) @ [j])]
      else gs @ [(key j, [j])])"

definition group_column ::
  "dataset \<Rightarrow> string list \<Rightarrow> string list \<Rightarrow> (val list \<times> nat list) list \<Rightarrow> string \<Rightarrow> val list" where
  "group_column t grouping_cols other_cols gs c =
     (if c \<in> set grouping_cols then map (\<lambda>(k, ms). the (map_of (zip grouping_cols k) c)) gs
      else if c \<in> set other_cols then map (\<lambda>(k, ms). VList (map (cell t c) ms)) gs
      else map (\<lambda>(k, ms). VInt (int (length ms))) gs)"

text \<open>Row \<open>j\<close> of a table as a record over the columns \<open>cs\<close>.\<close>

definition record_of :: "dataset \<Rightarrow> string list \<Rightarrow> nat \<Rightarrow> (string \<times> val) list" where
  "record_of t cs j = map (\<lambda>c. (c, cell t c j)) cs"

text \<open>The invariant of the loop: \<open>rtn\<close> has the result's columns, filled from the groups.\<close>

definition group_inv ::
  "dataset \<Rightarrow> string list \<Rightarrow> string list \<Rightarrow> string option \<Rightarrow> (val list \<times> nat list) list
     \<Rightarrow> dataset \<Rightarrow> bool" where
  "group_inv t grouping_cols other_cols count gs rtn =
     (map fst rtn = grouping_cols @ other_cols @ (case count of None \<Rightarrow> [] | Some c \<Rightarrow> [c])
      \<and> (\<forall>c \<in> set (map fst rtn).
            map_of rtn c = Some (group_column t grouping_cols other_cols gs c)))"

section \<open>Properties of the comparisons\<close>

lemma bind_e_simps [simp]: "bind_e (Inl e) f = Inl e" "bind_e (Inr x) f = f x"
  by (simp_all add: bind_e_def)

lemma seq_lt_refl: "seq_lt a a = Some False"
  by (induction a) auto

lemma seq_lt_trans_aux:
  assumes "\<forall>x \<in> set a.
             (\<forall>y z. val_lt x y = Some True \<longrightarrow> val_lt y z = Some True \<longrightarrow> val_lt x z = Some True)
             \<and> (\<forall>y. val_lt x y = Some True \<longrightarrow> x \<noteq> y)"
  shows "seq_lt a b = Some True \<Longrightarrow> seq_lt b c = Some True \<Longrightarrow> seq_lt a c = Some True"
  using assms
proof (induction a arbitrary: b c)
  case Nil
  from Nil.prems(1,2) show ?case by (cases b; cases c) simp_all
next
  case (Cons x xs)
  note ab = Cons.prems(1) and bc = Cons.prems(2)
  have px: "\<And>y z. val_lt x y = Some True \<Longrightarrow> val_lt y z = Some True \<Longrightarrow> val_lt x z = Some True"
    and nx: "\<And>y. val_lt x y = Some True \<Longrightarrow> x \<noteq> y"
    using Cons.prems(3) by simp_all
  have pxs: "\<forall>x \<in> set xs.
             (\<forall>y z. val_lt x y = Some True \<longrightarrow> val_lt y z = Some True \<longrightarrow> val_lt x z = Some True)
             \<and> (\<forall>y. val_lt x y = Some True \<longrightarrow> x \<noteq> y)"
    using Cons.prems(3) by simp
  show ?case
  proof (cases b)
    case Nil
    with ab show ?thesis by simp
  next
    case b: (Cons y ys)
    show ?thesis
    proof (cases c)
      case Nil
      with bc b show ?thesis by simp
    next
      case c: (Cons z zs)
      show ?thesis
      proof (cases "x = y")
        case True
        show ?thesis
        proof (cases "y = z")
          case yz: True
          have "seq_lt xs ys = Some True" "seq_lt ys zs = Some True"
            using ab bc True yz b c by simp_all
          then have "seq_lt xs zs = Some True"
            using pxs by (rule Cons.IH)
          with True yz c show ?thesis by simp
        next
          case False
          with ab bc True b c show ?thesis by simp
        qed
      next
        case xy: False
        show ?thesis
        proof (cases "y = z")
          case True
          with ab bc xy b c show ?thesis by simp
        next
          case False
          have 1: "val_lt x y = Some True" using ab xy b by simp
          have 2: "val_lt y z = Some True" using bc False b c by simp
          have 3: "val_lt x z = Some True" using 1 2 by (rule px)
          have "x \<noteq> z" using 3 by (rule nx)
          with 3 c show ?thesis by simp
        qed
      qed
    qed
  qed
qed

lemma val_lt_trans_irrefl:
  "(\<forall>y z. val_lt x y = Some True \<longrightarrow> val_lt y z = Some True \<longrightarrow> val_lt x z = Some True)
   \<and> (\<forall>y. val_lt x y = Some True \<longrightarrow> x \<noteq> y)"
proof (induction x)
  case VNone
  show ?case by simp
next
  case (VInt a)
  show ?case
  proof (intro conjI allI impI)
    fix y z assume "val_lt (VInt a) y = Some True" "val_lt y z = Some True"
    then show "val_lt (VInt a) z = Some True" by (cases y; cases z) simp_all
  next
    fix y assume "val_lt (VInt a) y = Some True"
    then show "VInt a \<noteq> y" by (cases y) simp_all
  qed
next
  case (VStr a)
  show ?case
  proof (intro conjI allI impI)
    fix y z assume "val_lt (VStr a) y = Some True" "val_lt y z = Some True"
    then show "val_lt (VStr a) z = Some True" by (cases y; cases z) simp_all
  next
    fix y assume "val_lt (VStr a) y = Some True"
    then show "VStr a \<noteq> y" by (cases y) simp_all
  qed
next
  case (VList a)
  have ih: "\<forall>x \<in> set a.
             (\<forall>y z. val_lt x y = Some True \<longrightarrow> val_lt y z = Some True \<longrightarrow> val_lt x z = Some True)
             \<and> (\<forall>y. val_lt x y = Some True \<longrightarrow> x \<noteq> y)"
  proof (rule ballI)
    fix x assume "x \<in> set a"
    then show "(\<forall>y z. val_lt x y = Some True \<longrightarrow> val_lt y z = Some True \<longrightarrow> val_lt x z = Some True)
             \<and> (\<forall>y. val_lt x y = Some True \<longrightarrow> x \<noteq> y)"
      by (rule VList.IH)
  qed
  show ?case
  proof (intro conjI allI impI)
    fix y z assume h: "val_lt (VList a) y = Some True" "val_lt y z = Some True"
    from h(1) obtain b where y: "y = VList b" by (cases y) simp_all
    from h(2) y obtain c where z: "z = VList c" by (cases z) simp_all
    have "seq_lt a b = Some True" "seq_lt b c = Some True" using h y z by simp_all
    then have "seq_lt a c = Some True"
      by (rule seq_lt_trans_aux[OF ih])
    then show "val_lt (VList a) z = Some True" using z by simp
  next
    fix y assume h: "val_lt (VList a) y = Some True"
    show "VList a \<noteq> y"
    proof
      assume "VList a = y"
      with h have "seq_lt a a = Some True" by auto
      then show False by (simp add: seq_lt_refl)
    qed
  qed
qed

lemma seq_lt_trans:
  "seq_lt a b = Some True \<Longrightarrow> seq_lt b c = Some True \<Longrightarrow> seq_lt a c = Some True"
proof (rule seq_lt_trans_aux[of a b c])
  show "\<forall>x \<in> set a.
             (\<forall>y z. val_lt x y = Some True \<longrightarrow> val_lt y z = Some True \<longrightarrow> val_lt x z = Some True)
             \<and> (\<forall>y. val_lt x y = Some True \<longrightarrow> x \<noteq> y)"
    using val_lt_trans_irrefl by (intro ballI)
qed

lemma seq_lt_asym: "seq_lt a b = Some True \<Longrightarrow> seq_lt b a \<noteq> Some True"
  using seq_lt_trans[of a b a] seq_lt_refl[of a] by auto

lemma lt_total:
  "val_lt x y = Some False \<Longrightarrow> x \<noteq> y \<Longrightarrow> val_lt y x = Some True"
  "seq_lt a b = Some False \<Longrightarrow> a \<noteq> b \<Longrightarrow> seq_lt b a = Some True"
  by (induction x y and a b rule: val_lt_seq_lt.induct) (auto split: if_splits)

section \<open>Claims settled by running the code\<close>

text \<open>
  C1 (rectangularity of every produced table, merge with a shared non-key column included).
  Both inputs are valid one-row tables that share the non-key column \<open>v\<close>; the inner merge
  on \<open>id\<close> appends the left and the right value to the same result column, and the table it
  returns has an \<open>id\<close> column of length 1 and a \<open>v\<close> column of length 2.
\<close>

theorem merge_shared_column_ragged:
  "merge [(''id'', [VInt 1]), (''v'', [VInt 10])] [(''id'', [VInt 1]), (''v'', [VInt 20])]
     (Some [''id'']) ''inner''
   = Inr [(''id'', [VInt 1]), (''v'', [VInt 10, VInt 20])]"
  by code_simp

text \<open>
  C2 (null padding of the unmatched side). The left key 1 has no right match; the
  pseudo-row for the right side is built with the number of columns of the left table
  (one), the right table has two columns, and reading its second cell raises \<open>IndexError\<close>:
  the left merge returns no table.
\<close>

theorem merge_left_unmatched_index_error:
  "merge [(''id'', [VInt 1])] [(''id'', [VInt 2]), (''w'', [VInt 5])] (Some [''id'']) ''left''
   = Inl IndexError"
  by code_simp

text \<open>
  C5 (construction from records takes the union of the keys). The two records have the
  key tuples \<open>(a)\<close> and \<open>(b)\<close>; whichever of them the set lists first, the table has that one
  column only and the other record's value is gone.
\<close>

theorem Dataset_records_drops_keys:
  "Dataset_records [[''a''], [''b'']] [[(''a'', VInt 1)], [(''b'', VInt 2)]]
     = Inr [(''a'', [VInt 1, VNone])]
   \<and> Dataset_records [[''b''], [''a'']] [[(''a'', VInt 1)], [(''b'', VInt 2)]]
     = Inr [(''b'', [VNone, VInt 2])]"
  by code_simp

section \<open>Dictionaries, the error monad and the constructor\<close>

lemma update_fresh: "k \<notin> fst ` set d \<Longrightarrow> AList.update k v d = d @ [(k, v)]"
  by (induction d) auto

lemma dict_of_foldl_distinct:
  "distinct (map fst (acc @ kvs)) \<Longrightarrow> foldl (\<lambda>d (k, v). AList.update k v d) acc kvs = acc @ kvs"
proof (induction kvs arbitrary: acc)
  case Nil
  show ?case by simp
next
  case (Cons kv kvs)
  obtain k v where kv: "kv = (k, v)" by (cases kv)
  have "k \<notin> fst ` set acc" using Cons.prems kv by auto
  then have u: "AList.update k v acc = acc @ [(k, v)]" by (rule update_fresh)
  have "distinct (map fst ((acc @ [(k, v)]) @ kvs))" using Cons.prems kv by simp
  then have "foldl (\<lambda>d (k, v). AList.update k v d) (acc @ [(k, v)]) kvs = (acc @ [(k, v)]) @ kvs"
    by (rule Cons.IH)
  then show ?case using u kv by simp
qed

lemma dict_of_distinct: "distinct (map fst kvs) \<Longrightarrow> dict_of kvs = kvs"
  using dict_of_foldl_distinct[of "[]" kvs] by (simp add: dict_of_def)

lemma map_of_foldl_update:
  "map_of (foldl (\<lambda>d (k, v). AList.update k v d) acc kvs) = map_of (rev kvs @ acc)"
proof (induction kvs arbitrary: acc)
  case Nil
  show ?case by simp
next
  case (Cons kv kvs)
  obtain k v where kv: "kv = (k, v)" by (cases kv)
  have "map_of (foldl (\<lambda>d (k, v). AList.update k v d) (AList.update k v acc) kvs)
        = map_of (rev kvs @ AList.update k v acc)" by (rule Cons.IH)
  also have "\<dots> = map_of (rev kvs @ [(k, v)] @ acc)"
    by (simp add: update_conv')
  finally show ?case using kv by simp
qed

lemma map_of_dict_of: "map_of (dict_of kvs) = map_of (rev kvs)"
  using map_of_foldl_update[of "[]" kvs] by (simp add: dict_of_def)

lemma distinct_foldl_update:
  "distinct (map fst acc) \<Longrightarrow> distinct (map fst (foldl (\<lambda>d (k, v). AList.update k v d) acc kvs))"
proof (induction kvs arbitrary: acc)
  case Nil
  then show ?case by simp
next
  case (Cons kv kvs)
  obtain k v where kv: "kv = (k, v)" by (cases kv)
  have "distinct (map fst (AList.update k v acc))" using Cons.prems by (simp add: distinct_update)
  then have "distinct (map fst (foldl (\<lambda>d (k, v). AList.update k v d) (AList.update k v acc) kvs))"
    by (rule Cons.IH)
  then show ?case using kv by simp
qed

lemma distinct_dict_of: "distinct (map fst (dict_of kvs))"
  using distinct_foldl_update[of "[]" kvs] by (simp add: dict_of_def)

lemma set_foldl_update:
  "set (foldl (\<lambda>d (k, v). AList.update k v d) acc kvs) \<subseteq> set acc \<union> set kvs"
proof (induction kvs arbitrary: acc)
  case Nil
  show ?case by simp
next
  case (Cons kv kvs)
  obtain k v where kv: "kv = (k, v)" by (cases kv)
  have "set (foldl (\<lambda>d (k, v). AList.update k v d) (AList.update k v acc) kvs)
          \<subseteq> set (AList.update k v acc) \<union> set kvs" by (rule Cons.IH)
  moreover have "set (AList.update k v acc) \<subseteq> insert (k, v) (set acc)"
    by (induction acc) auto
  ultimately show ?case using kv by auto
qed

lemma set_dict_of: "set (dict_of kvs) \<subseteq> set kvs"
  using set_foldl_update[of "[]" kvs] by (simp add: dict_of_def)

lemma getitem_Inr: "distinct (map fst d) \<Longrightarrow> (k, v) \<in> set d \<Longrightarrow> getitem d k = Inr v"
  by (simp add: getitem_def)

lemma getitem_KeyError: "k \<notin> fst ` set d \<Longrightarrow> getitem d k = Inl KeyError"
proof -
  assume "k \<notin> fst ` set d"
  then have "map_of d k = None" by (simp add: map_of_eq_None_iff)
  then show ?thesis by (simp add: getitem_def)
qed

lemma map_e_Inr: "(\<And>x. x \<in> set xs \<Longrightarrow> f x = Inr (g x)) \<Longrightarrow> map_e f xs = Inr (map g xs)"
  by (induction xs) simp_all

lemma remdups_le_1: "length (remdups xs) \<le> 1 \<longleftrightarrow> (\<forall>x \<in> set xs. \<forall>y \<in> set xs. x = y)"
proof -
  have "length (remdups xs) = card (set xs)" by (simp add: length_remdups_card_conv)
  moreover have "card (set xs) \<le> Suc 0 \<longleftrightarrow> (\<forall>x \<in> set xs. \<forall>y \<in> set xs. x = y)"
    by (rule card_le_Suc0_iff_eq) simp
  ultimately show ?thesis by simp
qed

lemma Dataset_eq: "Dataset t = (if rectangular t then Inr t else Inl AssertionError)"
proof -
  have "length (remdups (map (\<lambda>(c, col). length col) t)) \<le> 1 \<longleftrightarrow> rectangular t"
    unfolding remdups_le_1 rectangular_def by (auto simp: case_prod_beta)
  then show ?thesis by (simp add: Dataset_def)
qed

lemma rectangular_subset: "rectangular t \<Longrightarrow> set s \<subseteq> set t \<Longrightarrow> rectangular s"
  unfolding rectangular_def by blast

lemma min_length_const: "xss \<noteq> [] \<Longrightarrow> \<forall>xs \<in> set xss. length xs = n \<Longrightarrow> min_length xss = n"
proof (induction xss rule: min_length.induct)
  case 1
  then show ?case by simp
next
  case (2 xs)
  then show ?case by simp
next
  case (3 xs v va)
  then show ?case by simp
qed

lemma record_length_eq: "record_length t = min_length (map snd t)"
  by (simp add: record_length_def records_def rows_def zip_star_def)

lemma rectangular_length:
  assumes "rectangular t" "(c, col) \<in> set t"
  shows "length col = record_length t"
proof -
  have "\<forall>xs \<in> set (map snd t). length xs = length col"
  proof
    fix xs assume "xs \<in> set (map snd t)"
    then obtain b where b: "b \<in> set t" "xs = snd b" by auto
    have "length (snd b) = length (snd (c, col))"
      using assms(1) b(1) assms(2) unfolding rectangular_def by blast
    then show "length xs = length col" using b(2) by simp
  qed
  moreover have "map snd t \<noteq> []" using assms(2) by auto
  ultimately have "min_length (map snd t) = length col" by (rule min_length_const[rotated])
  then show ?thesis by (simp add: record_length_eq)
qed
lemma map_e_items:
  assumes "distinct (map fst d)"
  shows "map_e (\<lambda>c. bind_e (getitem d c) (\<lambda>v. Inr (f c v))) (map fst d)
         = Inr (map (\<lambda>(c, v). f c v) d)"
proof -
  have "map_e (\<lambda>c. bind_e (getitem d c) (\<lambda>v. Inr (f c v))) (map fst d)
        = Inr (map (\<lambda>c. f c (the (map_of d c))) (map fst d))"
  proof (rule map_e_Inr)
    fix x assume "x \<in> set (map fst d)"
    then obtain v where "(x, v) \<in> set d" by auto
    then have "map_of d x = Some v" using assms by simp
    then show "bind_e (getitem d x) (\<lambda>v. Inr (f x v)) = Inr (f x (the (map_of d x)))"
      by (simp add: getitem_def)
  qed
  moreover have "map (\<lambda>c. f c (the (map_of d c))) (map fst d) = map (\<lambda>(c, v). f c v) d"
  proof -
    have "\<And>p. p \<in> set d \<Longrightarrow> f (fst p) (the (map_of d (fst p))) = (case p of (c, v) \<Rightarrow> f c v)"
    proof -
      fix p assume pd: "p \<in> set d"
      obtain c v where p: "p = (c, v)" by (cases p)
      have "map_of d c = Some v" using assms pd p by simp
      then show "f (fst p) (the (map_of d (fst p))) = (case p of (c, v) \<Rightarrow> f c v)"
        using p by simp
    qed
    then show ?thesis by (simp add: comp_def)
  qed
  ultimately show ?thesis by simp
qed

section \<open>rename\<close>

lemma fst_set_dict_of: "fst ` set (dict_of kvs) = fst ` set kvs"
proof -
  have "dom (map_of (dict_of kvs)) = dom (map_of (rev kvs))" by (simp add: map_of_dict_of)
  then show ?thesis by (simp add: dom_map_of_conv_image_fst)
qed

lemma map_of_rev_last:
  "i < length kvs \<Longrightarrow> \<forall>j < length kvs. i < j \<longrightarrow> fst (kvs ! j) \<noteq> fst (kvs ! i)
     \<Longrightarrow> map_of (rev kvs) (fst (kvs ! i)) = Some (snd (kvs ! i))"
proof (induction kvs arbitrary: i)
  case Nil
  then show ?case by simp
next
  case (Cons x xs)
  show ?case
  proof (cases i)
    case 0
    have "fst x \<notin> fst ` set xs"
    proof
      assume "fst x \<in> fst ` set xs"
      then obtain j where j: "j < length xs" "fst (xs ! j) = fst x"
        by (auto simp: in_set_conv_nth)
      then have "fst ((x # xs) ! Suc j) = fst ((x # xs) ! i)" using 0 by simp
      moreover have "Suc j < length (x # xs)" "i < Suc j" using j 0 by simp_all
      ultimately show False using Cons.prems(2) by blast
    qed
    then have "map_of (rev xs) (fst x) = None" by (simp add: map_of_eq_None_iff)
    then show ?thesis using 0 by (cases x) (simp add: map_add_def)
  next
    case (Suc i')
    have 1: "i' < length xs" using Cons.prems(1) Suc by simp
    have 2: "\<forall>j < length xs. i' < j \<longrightarrow> fst (xs ! j) \<noteq> fst (xs ! i')"
    proof (intro allI impI)
      fix j assume "j < length xs" "i' < j"
      then have "Suc j < length (x # xs)" "i < Suc j" using Suc by simp_all
      then have "fst ((x # xs) ! Suc j) \<noteq> fst ((x # xs) ! i)" using Cons.prems(2) by blast
      then show "fst (xs ! j) \<noteq> fst (xs ! i')" using Suc by simp
    qed
    have "map_of (rev xs) (fst (xs ! i')) = Some (snd (xs ! i'))" using 1 2 by (rule Cons.IH)
    then show ?thesis using Suc by (simp add: map_add_def)
  qed
qed

lemma rectangular_mono:
  assumes "rectangular t" "snd ` set s \<subseteq> snd ` set t"
  shows "rectangular s"
  unfolding rectangular_def
proof (intro ballI)
  fix a b assume "a \<in> set s" "b \<in> set s"
  then have "snd a \<in> snd ` set t" "snd b \<in> snd ` set t" using assms(2) by blast+
  then obtain a' b' where "a' \<in> set t" "snd a = snd a'" "b' \<in> set t" "snd b = snd b'" by blast
  then show "length (snd a) = length (snd b)"
    using assms(1) unfolding rectangular_def by metis
qed

lemma rename_eq:
  assumes "distinct (columns self)" "rectangular self"
  shows "rename self rename_map
         = Inr (dict_of (map (\<lambda>(c, col). (new_name rename_map c, col)) self))"
proof -
  let ?items = "map (\<lambda>(c, col). (new_name rename_map c, col)) self"
  have d: "distinct (map fst self)" using assms(1) by (simp add: columns_def)
  have 1: "map_e (\<lambda>c. bind_e (getitem self c) (\<lambda>col. Inr (new_name rename_map c, col)))
             (columns self) = Inr ?items"
    unfolding columns_def by (rule map_e_items[OF d])
  have "snd ` set (dict_of ?items) \<subseteq> snd ` set ?items"
    using set_dict_of[of ?items] by blast
  also have "snd ` set ?items = snd ` set self"
    by (simp add: image_image case_prod_beta)
  finally have "rectangular (dict_of ?items)"
    by (rule rectangular_mono[OF assms(2)])
  then have "Dataset (dict_of ?items) = Inr (dict_of ?items)" by (simp add: Dataset_eq)
  then show ?thesis unfolding rename_def 1 by simp
qed

section \<open>merge without key columns\<close>

lemma disjoint_iff_length_remdups:
  assumes "distinct a" "distinct b"
  shows "length a + length b = length (remdups (a @ b)) \<longleftrightarrow> set a \<inter> set b = {}"
proof -
  have "length (remdups (a @ b)) = card (set a \<union> set b)"
    by (simp add: length_remdups_card_conv)
  moreover have "card (set a) + card (set b) = card (set a \<union> set b) + card (set a \<inter> set b)"
    by (rule card_Un_Int) simp_all
  moreover have "card (set a) = length a" "card (set b) = length b"
    using assms by (simp_all add: distinct_card)
  moreover have "card (set a \<inter> set b) = 0 \<longleftrightarrow> set a \<inter> set b = {}" by simp
  ultimately show ?thesis by linarith
qed

lemma record_length_Nil: "record_length [] = 0"
  by (simp add: record_length_eq)

lemma full_outer_merge_eq:
  assumes "distinct (columns self)" "rectangular self"
    and "distinct (columns right)" "rectangular right"
    and "set (columns self) \<inter> set (columns right) = {}"
  shows "full_outer_merge self right
         = Inr (map (\<lambda>(c, col). (c, concat (map (replicate (record_length right)) col))) self
              @ map (\<lambda>(c, col). (c, concat (replicate (record_length self) col))) right)"
proof -
  let ?L = "record_length self" and ?R = "record_length right"
  let ?ls = "map (\<lambda>(c, col). (c, concat (map (replicate ?R) col))) self"
  let ?rs = "map (\<lambda>(c, col). (c, concat (replicate ?L col))) right"
  have ds: "distinct (map fst self)" and dr: "distinct (map fst right)"
    using assms(1,3) by (simp_all add: columns_def)
  have a: "\<not> column_length self + column_length right
              \<noteq> length (remdups (columns self @ columns right))"
    using disjoint_iff_length_remdups[OF assms(1,3)] assms(5) by (simp add: column_length_def)
  have 1: "map_e (\<lambda>col. bind_e (getitem self col) (\<lambda>vs.
                  Inr (col, concat (map (replicate ?R) vs)))) (columns self) = Inr ?ls"
    unfolding columns_def by (rule map_e_items[OF ds])
  have 2: "map_e (\<lambda>col. bind_e (getitem right col) (\<lambda>vs.
                  Inr (col, concat (replicate ?L vs)))) (columns right) = Inr ?rs"
    unfolding columns_def by (rule map_e_items[OF dr])
  have fl: "map fst ?ls = columns self" and fr: "map fst ?rs = columns right"
    by (simp_all add: columns_def case_prod_beta comp_def)
  have 3: "dict_of ?ls = ?ls" by (rule dict_of_distinct) (simp only: fl assms(1))
  have 4: "dict_of ?rs = ?rs" by (rule dict_of_distinct) (simp only: fr assms(3))
  have "distinct (map fst (?ls @ ?rs))"
    unfolding map_append fl fr using assms(1,3,5) by simp
  then have 5: "dict_of (?ls @ ?rs) = ?ls @ ?rs" by (rule dict_of_distinct)
  have len: "\<forall>p \<in> set (?ls @ ?rs). length (snd p) = ?L * ?R"
  proof
    fix p assume "p \<in> set (?ls @ ?rs)"
    then consider (l) c col where "(c, col) \<in> set self" "p = (c, concat (map (replicate ?R) col))"
      | (r) c col where "(c, col) \<in> set right" "p = (c, concat (replicate ?L col))"
      by auto
    then show "length (snd p) = ?L * ?R"
    proof cases
      case l
      have "length col = ?L" using assms(2) l(1) by (rule rectangular_length)
      then show ?thesis using l(2) by (simp add: length_concat comp_def sum_list_triv)
    next
      case r
      have "length col = ?R" using assms(4) r(1) by (rule rectangular_length)
      then show ?thesis using r(2) by (simp add: length_concat sum_list_replicate)
    qed
  qed
  have "rectangular (?ls @ ?rs)"
    unfolding rectangular_def
  proof (intro ballI)
    fix p q assume "p \<in> set (?ls @ ?rs)" "q \<in> set (?ls @ ?rs)"
    then show "length (snd p) = length (snd q)" using len by simp
  qed
  then have 6: "Dataset (?ls @ ?rs) = Inr (?ls @ ?rs)" by (simp add: Dataset_eq)
  show ?thesis
    unfolding full_outer_merge_def if_not_P[OF a] Let_def 1 2 bind_e_simps 3 4 5 6 ..
qed

text \<open>
  C10, the counterexample: with \<open>on=None\<close> the \<open>how\<close> argument is still checked. For a value
  that is not one of the four modes \<open>merge\<close> raises, where \<open>full_outer_merge\<close> of the same
  tables returns the product.
\<close>

theorem merge_without_on_checks_how_counterexample:
  "merge [(''v'', [VInt 10])] [(''w'', [VInt 1, VInt 2])] None ''outer'' = Inl AssertionError
   \<and> full_outer_merge [(''v'', [VInt 10])] [(''w'', [VInt 1, VInt 2])]
       = Inr [(''v'', [VInt 10, VInt 10]), (''w'', [VInt 1, VInt 2])]"
  by code_simp

text \<open>
  C10 as amended: with \<open>on=None\<close>, \<open>merge\<close> first asserts that \<open>how\<close> is one of the four
  modes; for each of them the result is \<open>full_outer_merge\<close> of the two tables, whatever the
  mode. \<open>full_outer_merge\<close> of two valid tables fails when they share a column name;
  otherwise it returns the left columns, each value repeated once per right row,
  followed by the right columns, each tiled once per left row: a table of
  \<open>|left| * |right|\<close> rows.
\<close>

theorem merge_without_on_is_full_outer_merge:
  assumes "distinct (columns self)" "rectangular self"
    and "distinct (columns right)" "rectangular right"
  shows "(how \<notin> set [''inner'', ''left'', ''right'', ''full'']
            \<longrightarrow> merge self right None how = Inl AssertionError)
     \<and> (how \<in> set [''inner'', ''left'', ''right'', ''full'']
            \<longrightarrow> merge self right None how = full_outer_merge self right)
     \<and> (set (columns self) \<inter> set (columns right) \<noteq> {}
            \<longrightarrow> full_outer_merge self right = Inl AssertionError)
     \<and> (set (columns self) \<inter> set (columns right) = {}
            \<longrightarrow> (\<exists>rtn. full_outer_merge self right = Inr rtn
                 \<and> rtn = map (\<lambda>(c, col). (c, concat (map (replicate (record_length right)) col))) self
                       @ map (\<lambda>(c, col). (c, concat (replicate (record_length self) col))) right
                 \<and> rectangular rtn
                 \<and> record_length rtn = record_length self * record_length right))"
proof (intro conjI impI)
  assume "how \<notin> set [''inner'', ''left'', ''right'', ''full'']"
  then show "merge self right None how = Inl AssertionError"
    unfolding merge_def by (rule if_P)
next
  assume "how \<in> set [''inner'', ''left'', ''right'', ''full'']"
  then have "\<not> how \<notin> set [''inner'', ''left'', ''right'', ''full'']" by blast
  then show "merge self right None how = full_outer_merge self right"
    unfolding merge_def by (simp only: if_False option.case)
next
  assume "set (columns self) \<inter> set (columns right) \<noteq> {}"
  then have "column_length self + column_length right
              \<noteq> length (remdups (columns self @ columns right))"
    using disjoint_iff_length_remdups[OF assms(1,3)] by (simp add: column_length_def)
  then show "full_outer_merge self right = Inl AssertionError"
    unfolding full_outer_merge_def by (rule if_P)
next
  assume dj: "set (columns self) \<inter> set (columns right) = {}"
  let ?L = "record_length self" and ?R = "record_length right"
  let ?ls = "map (\<lambda>(c, col). (c, concat (map (replicate ?R) col))) self"
  let ?rs = "map (\<lambda>(c, col). (c, concat (replicate ?L col))) right"
  have eq: "full_outer_merge self right = Inr (?ls @ ?rs)"
    using assms dj by (rule full_outer_merge_eq)
  have len: "\<forall>p \<in> set (?ls @ ?rs). length (snd p) = ?L * ?R"
  proof
    fix p assume "p \<in> set (?ls @ ?rs)"
    then consider (l) c col where "(c, col) \<in> set self" "p = (c, concat (map (replicate ?R) col))"
      | (r) c col where "(c, col) \<in> set right" "p = (c, concat (replicate ?L col))"
      by auto
    then show "length (snd p) = ?L * ?R"
    proof cases
      case l
      have "length col = ?L" using assms(2) l(1) by (rule rectangular_length)
      then show ?thesis using l(2) by (simp add: length_concat comp_def sum_list_triv)
    next
      case r
      have "length col = ?R" using assms(4) r(1) by (rule rectangular_length)
      then show ?thesis using r(2) by (simp add: length_concat sum_list_replicate)
    qed
  qed
  have rect: "rectangular (?ls @ ?rs)"
    unfolding rectangular_def
  proof (intro ballI)
    fix p q assume "p \<in> set (?ls @ ?rs)" "q \<in> set (?ls @ ?rs)"
    then show "length (snd p) = length (snd q)" using len by simp
  qed
  have rl: "record_length (?ls @ ?rs) = ?L * ?R"
  proof (cases "?ls @ ?rs")
    case Nil
    then have "self = []" "right = []" by simp_all
    then show ?thesis by (simp add: record_length_Nil)
  next
    case (Cons p ps)
    obtain c col where p: "p = (c, col)" by (cases p)
    have in_set: "(c, col) \<in> set (?ls @ ?rs)" unfolding Cons p by simp
    have "length col = record_length (?ls @ ?rs)" using rect in_set by (rule rectangular_length)
    moreover have "length (snd (c, col)) = ?L * ?R" using len in_set by blast
    ultimately show ?thesis by simp
  qed
  show "\<exists>rtn. full_outer_merge self right = Inr rtn \<and> rtn = ?ls @ ?rs
           \<and> rectangular rtn \<and> record_length rtn = ?L * ?R"
    using eq rect rl by blast
qed

theorem merge_without_on_is_full_outer_merge_witness:
  "merge [(''v'', [VInt 10])] [(''w'', [VInt 1, VInt 2])] None ''left''
     = full_outer_merge [(''v'', [VInt 10])] [(''w'', [VInt 1, VInt 2])]
   \<and> full_outer_merge [(''v'', [VInt 10])] [(''w'', [VInt 1, VInt 2])]
     = Inr [(''v'', [VInt 10, VInt 10]), (''w'', [VInt 1, VInt 2])]"
proof -
  have 1: "distinct (columns [(''v'', [VInt 10])])" "distinct (columns [(''w'', [VInt 1, VInt 2])])"
    by (simp_all add: columns_def)
  have 2: "rectangular [(''v'', [VInt 10])]" "rectangular [(''w'', [VInt 1, VInt 2])]"
    by (simp_all add: rectangular_def)
  have 3: "set (columns [(''v'', [VInt 10])]) \<inter> set (columns [(''w'', [VInt 1, VInt 2])]) = {}"
    by (simp add: columns_def)
  have 4: "record_length [(''v'', [VInt 10])] = 1" "record_length [(''w'', [VInt 1, VInt 2])] = 2"
    by (simp_all add: record_length_eq)
  show ?thesis
    using merge_without_on_is_full_outer_merge[OF 1(1) 2(1) 1(2) 2(2), of "''left''"] 3
    by (simp add: 4 numeral_2_eq_2)
qed

section \<open>The stable sort\<close>

lemma set_insort_lt: "set (insort_lt key x ys) = insert x (set ys)"
  by (induction ys) auto

lemma length_insort_lt: "length (insort_lt key x ys) = Suc (length ys)"
  by (induction ys) auto

lemma distinct_insort_lt: "distinct (insort_lt key x ys) = (x \<notin> set ys \<and> distinct ys)"
  by (induction ys) (auto simp: set_insort_lt)

lemma set_stable_sort: "set (stable_sort key xs) = set xs"
  unfolding stable_sort_def by (induction xs) (simp_all add: set_insort_lt)

lemma length_stable_sort: "length (stable_sort key xs) = length xs"
  unfolding stable_sort_def by (induction xs) (simp_all add: length_insort_lt)

lemma distinct_stable_sort: "distinct (stable_sort key xs) = distinct xs"
  unfolding stable_sort_def
proof (induction xs)
  case Nil
  show ?case by simp
next
  case (Cons x xs)
  have "set (foldr (insort_lt key) xs []) = set xs"
    using set_stable_sort[of key xs] by (simp add: stable_sort_def)
  then show ?case using Cons by (simp add: distinct_insort_lt)
qed

lemma insort_lt_map: "insort_lt key (f x) (map f ys) = map f (insort_lt (\<lambda>y. key (f y)) x ys)"
  by (induction ys) simp_all

lemma stable_sort_map: "stable_sort key (map f xs) = map f (stable_sort (\<lambda>y. key (f y)) xs)"
  unfolding stable_sort_def by (induction xs) (simp_all add: insort_lt_map)

text \<open>Stability: elements with equal keys keep the order they had.\<close>

lemma insort_lt_stable:
  assumes "sorted_wrt (\<lambda>a b. key a = key b \<longrightarrow> R a b) ys"
    and "\<forall>z \<in> set ys. key x = key z \<longrightarrow> R x z"
  shows "sorted_wrt (\<lambda>a b. key a = key b \<longrightarrow> R a b) (insort_lt key x ys)"
  using assms
proof (induction ys)
  case Nil
  show ?case by simp
next
  case (Cons y ys)
  show ?case
  proof (cases "seq_lt (key y) (key x) = Some True")
    case True
    then have ne: "key y \<noteq> key x" using seq_lt_refl[of "key x"] by auto
    have "sorted_wrt (\<lambda>a b. key a = key b \<longrightarrow> R a b) (insort_lt key x ys)"
      using Cons.prems by (intro Cons.IH) simp_all
    moreover have "\<forall>z \<in> set (insort_lt key x ys). key y = key z \<longrightarrow> R y z"
      using Cons.prems(1) ne by (auto simp: set_insort_lt)
    ultimately show ?thesis using True by simp
  next
    case False
    then show ?thesis using Cons.prems by simp
  qed
qed

lemma stable_sort_stable:
  assumes "sorted_wrt (\<lambda>a b. key a = key b \<longrightarrow> R a b) xs"
  shows "sorted_wrt (\<lambda>a b. key a = key b \<longrightarrow> R a b) (stable_sort key xs)"
  using assms
proof (induction xs)
  case Nil
  show ?case by (simp add: stable_sort_def)
next
  case (Cons x xs)
  have 1: "sorted_wrt (\<lambda>a b. key a = key b \<longrightarrow> R a b) (stable_sort key xs)"
    using Cons by simp
  have 2: "\<forall>z \<in> set (stable_sort key xs). key x = key z \<longrightarrow> R x z"
    using Cons.prems by (simp add: set_stable_sort)
  have "stable_sort key (x # xs) = insort_lt key x (stable_sort key xs)"
    by (simp add: stable_sort_def)
  then show ?case using insort_lt_stable[OF 1 2] by simp
qed

text \<open>Order: when the keys compare, the result ascends.\<close>

lemma not_lt_trans:
  assumes "seq_lt b a \<noteq> Some True" "seq_lt c b \<noteq> Some True"
    and "seq_lt a b \<noteq> None" "seq_lt b a \<noteq> None" "seq_lt b c \<noteq> None" "seq_lt c b \<noteq> None"
  shows "seq_lt c a \<noteq> Some True"
proof
  assume ca: "seq_lt c a = Some True"
  have ba: "seq_lt b a = Some False" using assms(1,4) by (cases "seq_lt b a") auto
  have cb: "seq_lt c b = Some False" using assms(2,6) by (cases "seq_lt c b") auto
  show False
  proof (cases "a = b")
    case True
    then show ?thesis using ca cb by simp
  next
    case False
    then have ab: "seq_lt a b = Some True" using lt_total(2)[OF ba] by blast
    have "seq_lt c b = Some True" using ca ab by (rule seq_lt_trans)
    then show ?thesis using cb by simp
  qed
qed

lemma insort_lt_sorted:
  assumes "sorted_wrt (\<lambda>a b. seq_lt (key b) (key a) \<noteq> Some True) ys"
    and "comparable (map key (x # ys))"
  shows "sorted_wrt (\<lambda>a b. seq_lt (key b) (key a) \<noteq> Some True) (insort_lt key x ys)"
  using assms
proof (induction ys)
  case Nil
  show ?case by simp
next
  case (Cons y ys)
  have cmp: "\<And>u v. u \<in> set (x # y # ys) \<Longrightarrow> v \<in> set (x # y # ys) \<Longrightarrow> seq_lt (key u) (key v) \<noteq> None"
    using Cons.prems(2) unfolding comparable_def by (metis imageI set_map)
  show ?case
  proof (cases "seq_lt (key y) (key x) = Some True")
    case True
    have "comparable (map key (x # ys))"
      using Cons.prems(2) unfolding comparable_def by simp
    then have s: "sorted_wrt (\<lambda>a b. seq_lt (key b) (key a) \<noteq> Some True) (insort_lt key x ys)"
      using Cons.prems(1) by (intro Cons.IH) simp_all
    have "seq_lt (key x) (key y) \<noteq> Some True" using True by (rule seq_lt_asym)
    moreover have "\<forall>z \<in> set ys. seq_lt (key z) (key y) \<noteq> Some True"
      using Cons.prems(1) by simp
    ultimately have "\<forall>z \<in> set (insort_lt key x ys). seq_lt (key z) (key y) \<noteq> Some True"
      by (simp add: set_insort_lt)
    then show ?thesis using True s by simp
  next
    case False
    have "\<forall>z \<in> set ys. seq_lt (key z) (key x) \<noteq> Some True"
    proof
      fix z assume z: "z \<in> set ys"
      have zy: "seq_lt (key z) (key y) \<noteq> Some True" using Cons.prems(1) z by simp
      show "seq_lt (key z) (key x) \<noteq> Some True"
        using False zy by (rule not_lt_trans) (use z in \<open>simp_all add: cmp\<close>)
    qed
    then show ?thesis using False Cons.prems(1) by simp
  qed
qed

lemma stable_sort_sorted:
  assumes "comparable (map key xs)"
  shows "sorted_wrt (\<lambda>a b. seq_lt (key b) (key a) \<noteq> Some True) (stable_sort key xs)"
  using assms
proof (induction xs)
  case Nil
  show ?case by (simp add: stable_sort_def)
next
  case (Cons x xs)
  have c: "comparable (map key xs)" using Cons.prems unfolding comparable_def by simp
  have 1: "sorted_wrt (\<lambda>a b. seq_lt (key b) (key a) \<noteq> Some True) (stable_sort key xs)"
    using c by (rule Cons.IH)
  have 2: "comparable (map key (x # stable_sort key xs))"
    using Cons.prems unfolding comparable_def by (simp add: set_stable_sort)
  have "stable_sort key (x # xs) = insort_lt key x (stable_sort key xs)"
    by (simp add: stable_sort_def)
  then show ?case using insort_lt_sorted[OF 1 2] by simp
qed

section \<open>sort\<close>

lemma set_uniq: "set (uniq xs) = set xs"
  by (induction xs) auto

lemma distinct_uniq: "distinct (uniq xs)"
  by (induction xs) (simp_all add: distinct_removeAll set_uniq)

lemma uniq_distinct: "distinct xs \<Longrightarrow> uniq xs = xs"
  by (induction xs) (simp_all add: set_uniq)

lemma update_same: "(k, v) \<in> set d \<Longrightarrow> distinct (map fst d) \<Longrightarrow> AList.update k v d = d"
  by (induction d) (auto simp: rev_image_eqI)

lemma filter_removeAll_in:
  "x \<in> S \<Longrightarrow> filter (\<lambda>c. c \<notin> S) (removeAll x zs) = filter (\<lambda>c. c \<notin> S) zs"
  by (induction zs) auto

lemma filter_snoc_removeAll:
  "filter (\<lambda>c. c \<notin> set (ys @ [x])) zs = filter (\<lambda>c. c \<notin> set ys) (removeAll x zs)"
  by (induction zs) auto

lemma removeAll_filter_notin:
  "removeAll x (filter (\<lambda>c. c \<notin> set xs) zs) = filter (\<lambda>c. c \<notin> set (x # xs)) zs"
  by (induction zs) auto

lemma foldl_update_graph:
  assumes "distinct ys"
  shows "foldl (\<lambda>d (k, v). AList.update k v d) (map (\<lambda>c. (c, f c)) ys) (map (\<lambda>c. (c, f c)) xs)
         = map (\<lambda>c. (c, f c)) (ys @ filter (\<lambda>c. c \<notin> set ys) (uniq xs))"
  using assms
proof (induction xs arbitrary: ys)
  case Nil
  show ?case by simp
next
  case (Cons x xs)
  let ?g = "\<lambda>c. (c, f c)"
  show ?case
  proof (cases "x \<in> set ys")
    case True
    have "(x, f x) \<in> set (map ?g ys)" using True by auto
    moreover have "distinct (map fst (map ?g ys))" using Cons.prems by (simp add: comp_def)
    ultimately have u: "AList.update x (f x) (map ?g ys) = map ?g ys" by (rule update_same)
    have "filter (\<lambda>c. c \<notin> set ys) (removeAll x (uniq xs)) = filter (\<lambda>c. c \<notin> set ys) (uniq xs)"
      using True by (rule filter_removeAll_in)
    then show ?thesis using True u Cons.IH[OF Cons.prems] by simp
  next
    case False
    have "x \<notin> fst ` set (map ?g ys)" using False by (auto simp: image_image)
    then have u: "AList.update x (f x) (map ?g ys) = map ?g (ys @ [x])"
      using update_fresh[of x "map ?g ys" "f x"] by simp
    have d: "distinct (ys @ [x])" using False Cons.prems by simp
    have "filter (\<lambda>c. c \<notin> set (ys @ [x])) (uniq xs)
          = filter (\<lambda>c. c \<notin> set ys) (removeAll x (uniq xs))"
      by (rule filter_snoc_removeAll)
    then show ?thesis using False u Cons.IH[OF d] by simp
  qed
qed

lemma dict_of_graph: "dict_of (map (\<lambda>c. (c, f c)) xs) = map (\<lambda>c. (c, f c)) (uniq xs)"
proof -
  have "filter (\<lambda>c. c \<notin> set []) (uniq xs) = uniq xs" by simp
  then show ?thesis
    using foldl_update_graph[of "[]" f xs] by (simp add: dict_of_def)
qed

lemma uniq_append: "uniq (xs @ ys) = uniq xs @ filter (\<lambda>c. c \<notin> set xs) (uniq ys)"
proof (induction xs)
  case Nil
  show ?case by simp
next
  case (Cons x xs)
  have "removeAll x (filter (\<lambda>c. c \<notin> set xs) (uniq ys)) = filter (\<lambda>c. c \<notin> set (x # xs)) (uniq ys)"
    by (rule removeAll_filter_notin)
  then show ?case using Cons by simp
qed

lemma zip_map_graph: "zip xs (map f xs) = map (\<lambda>c. (c, f c)) xs"
  by (induction xs) simp_all

lemma map_nth_graph: "map (\<lambda>i. f (xs ! i)) [0..<length xs] = map f xs"
  by (rule nth_equalityI) simp_all

lemma getitem_the: "c \<in> set (columns self) \<Longrightarrow> getitem self c = Inr (the (map_of self c))"
proof -
  assume "c \<in> set (columns self)"
  then have "c \<in> fst ` set self" by (simp add: columns_def)
  then obtain v where "map_of self c = Some v"
    by (metis map_of_eq_None_iff not_Some_eq)
  then show ?thesis by (simp add: getitem_def)
qed

lemma column_length_eq:
  assumes "rectangular self" "c \<in> set (columns self)"
  shows "length (the (map_of self c)) = record_length self"
proof -
  from assms(2) have "c \<in> fst ` set self" by (simp add: columns_def)
  then obtain v where v: "map_of self c = Some v"
    by (metis map_of_eq_None_iff not_Some_eq)
  then have "(c, v) \<in> set self" by (rule map_of_SomeD)
  with assms(1) have "length v = record_length self" by (rule rectangular_length)
  then show ?thesis using v by simp
qed

lemma length_sort_perm: "length (sort_perm self names reverse) = record_length self"
  by (simp add: sort_perm_def length_stable_sort)

lemma set_sort_perm: "set (sort_perm self names reverse) = {0..<record_length self}"
  by (simp add: sort_perm_def set_stable_sort)

lemma distinct_sort_perm: "distinct (sort_perm self names reverse)"
  by (simp add: sort_perm_def distinct_stable_sort)

lemma zip_star_rows:
  assumes "p \<noteq> []"
  shows "zip_star (map (\<lambda>j. map (\<lambda>c. f c j) so) p) = map (\<lambda>c. map (f c) p) so"
proof -
  have "min_length (map (\<lambda>j. map (\<lambda>c. f c j) so) p) = length so"
    by (rule min_length_const) (use assms in auto)
  then have "zip_star (map (\<lambda>j. map (\<lambda>c. f c j) so) p)
        = map (\<lambda>i. map (\<lambda>xs. xs ! i) (map (\<lambda>j. map (\<lambda>c. f c j) so) p)) [0..<length so]"
    by (simp add: zip_star_def)
  also have "\<dots> = map (\<lambda>i. map (f (so ! i)) p) [0..<length so]"
    by simp
  also have "\<dots> = map (\<lambda>c. map (f c) p) so" by (rule map_nth_graph)
  finally show ?thesis .
qed

lemma zip_star_columns:
  assumes "\<forall>c \<in> set so. length (g c) = n"  "so = [] \<Longrightarrow> n = 0"
  shows "zip_star (map g so) = map (\<lambda>j. map (\<lambda>c. g c ! j) so) [0..<n]"
proof (cases "so = []")
  case True
  then show ?thesis using assms(2) by (simp add: zip_star_def)
next
  case False
  have "min_length (map g so) = n"
    by (rule min_length_const) (use False assms(1) in auto)
  then show ?thesis by (simp add: zip_star_def comp_def)
qed

lemma sort_ds_eq:
  assumes d: "distinct (columns self)" and r: "rectangular self"
  shows "sort_ds self names reverse =
     (if \<not> set names \<subseteq> set (columns self) then Inl AssertionError
      else if \<not> comparable (map (row_key self names) [0..<record_length self]) then Inl TypeError
      else if record_length self = 0 \<and> self \<noteq> [] then Inl KeyError
      else Inr (select_rows self (uniq (names @ filter (\<lambda>col. col \<notin> set names) (columns self)))
                  (sort_perm self names reverse)))"
proof (cases "set names \<subseteq> set (columns self)")
  case False
  then have "\<not> (\<forall>name \<in> set names. name \<in> set (columns self))" by blast
  then have "sort_ds self names reverse = Inl AssertionError"
    unfolding sort_ds_def by (rule if_P)
  then show ?thesis using False by simp
next
  case sub: True
  define so where "so = names @ filter (\<lambda>col. col \<notin> set names) (columns self)"
  define n where "n = record_length self"
  define colof where "colof = (\<lambda>c. the (map_of self c))"
  define rowf where "rowf = (\<lambda>j. map (\<lambda>c. cell self c j) so)"
  define p where "p = sort_perm self names reverse"
  define tk where "tk = (take (length names) :: val list \<Rightarrow> val list)"
  have so_set: "set so = set (columns self)" using sub by (auto simp: so_def)
  have fold: "select_rows self (uniq (names @ filter (\<lambda>col. col \<notin> set names) (columns self)))
                 (sort_perm self names reverse) = select_rows self (uniq so) p"
    by (simp add: so_def p_def)
  have a: "\<not> \<not> (\<forall>name \<in> set names. name \<in> set (columns self))" using sub by blast
  have cols: "map_e (getitem self) so = Inr (map colof so)"
    by (rule map_e_Inr) (simp add: so_set getitem_the colof_def)
  have len: "\<forall>c \<in> set so. length (colof c) = n"
    using column_length_eq[OF r] by (simp add: so_set colof_def n_def)
  have emp: "so = [] \<Longrightarrow> n = 0"
  proof -
    assume "so = []"
    then have "self = []" using so_set by (simp add: columns_def)
    then show "n = 0" by (simp add: n_def record_length_Nil)
  qed
  have zs: "zip_star (map colof so) = map rowf [0..<n]"
    using zip_star_columns[of so colof n, OF len emp] by (simp add: rowf_def cell_def colof_def)
  have key: "\<And>j. tk (rowf j) = row_key self names j"
    by (simp add: tk_def rowf_def so_def row_key_def)
  have cmp: "comparable (map tk (map rowf [0..<n])) = comparable (map (row_key self names) [0..<n])"
    by (simp add: key comp_def)
  have srt: "(if reverse then rev (stable_sort tk (rev (map rowf [0..<n])))
              else stable_sort tk (map rowf [0..<n])) = map rowf p"
    by (simp add: p_def sort_perm_def n_def rev_map stable_sort_map key)
  have psort: "py_sorted tk reverse (map rowf [0..<n])
        = (if \<not> comparable (map (row_key self names) [0..<n]) then Inl TypeError
           else Inr (map rowf p))"
    unfolding py_sorted_def cmp srt ..
  have unfold: "sort_ds self names reverse =
        bind_e (py_sorted tk reverse (map rowf [0..<n])) (\<lambda>sorted_data.
          bind_e (map_e (getitem (dict_of (zip so (zip_star sorted_data)))) so) (\<lambda>vals.
            Dataset (dict_of (zip so vals))))"
    unfolding sort_ds_def if_not_P[OF a] Let_def so_def[symmetric] cols bind_e_simps zs
      tk_def[symmetric] ..
  show ?thesis
  proof (cases "comparable (map (row_key self names) [0..<n])")
    case False
    then have "sort_ds self names reverse = Inl TypeError"
      unfolding unfold psort by simp
    then show ?thesis using sub False by (simp add: n_def)
  next
    case cm: True
    have u2: "sort_ds self names reverse =
          bind_e (map_e (getitem (dict_of (zip so (zip_star (map rowf p))))) so) (\<lambda>vals.
            Dataset (dict_of (zip so vals)))"
      unfolding unfold psort using cm by simp
    have lp: "length p = n" by (simp add: p_def n_def length_sort_perm)
    show ?thesis
    proof (cases "n = 0")
      case True
      then have pe: "p = []" using lp by simp
      have z: "dict_of (zip so (zip_star (map rowf p))) = []"
        by (simp add: pe zip_star_def dict_of_def)
      show ?thesis
      proof (cases "self = []")
        case True
        then have "so = []" using so_set by (simp add: columns_def)
        have "sort_ds self names reverse =
                bind_e (map_e (getitem []) so) (\<lambda>vals. Dataset (dict_of (zip so vals)))"
          unfolding u2 z ..
        then have "sort_ds self names reverse = Inr []"
          using \<open>so = []\<close> by (simp add: dict_of_def Dataset_def)
        moreover have "select_rows self (uniq so) p = []"
          using \<open>so = []\<close> by (simp add: select_rows_def)
        ultimately show ?thesis unfolding fold using sub cm True
          by (simp add: n_def record_length_Nil)
      next
        case False
        then obtain c cs where so: "so = c # cs"
          using so_set by (cases so) (auto simp: columns_def)
        have "sort_ds self names reverse =
                bind_e (map_e (getitem []) so) (\<lambda>vals. Dataset (dict_of (zip so vals)))"
          unfolding u2 z ..
        then have "sort_ds self names reverse = Inl KeyError"
          by (simp add: so getitem_def)
        then show ?thesis using sub cm True False by (simp add: n_def)
      qed
    next
      case False
      then have pne: "p \<noteq> []" using lp by auto
      define colf where "colf = (\<lambda>c. map (cell self c) p)"
      have zr: "zip_star (map rowf p) = map colf so"
        unfolding rowf_def colf_def using pne by (rule zip_star_rows)
      have rtn: "dict_of (zip so (zip_star (map rowf p))) = map (\<lambda>c. (c, colf c)) (uniq so)"
        unfolding zr zip_map_graph dict_of_graph ..
      have dr: "distinct (map fst (map (\<lambda>c. (c, colf c)) (uniq so)))"
        by (simp add: comp_def distinct_uniq)
      have vals: "map_e (getitem (map (\<lambda>c. (c, colf c)) (uniq so))) so = Inr (map colf so)"
      proof (rule map_e_Inr)
        fix x assume "x \<in> set so"
        then have "(x, colf x) \<in> set (map (\<lambda>c. (c, colf c)) (uniq so))"
          by (simp add: set_uniq image_iff)
        with dr show "getitem (map (\<lambda>c. (c, colf c)) (uniq so)) x = Inr (colf x)"
          by (rule getitem_Inr)
      qed
      have rect: "rectangular (map (\<lambda>c. (c, colf c)) (uniq so))"
        unfolding rectangular_def by (auto simp: colf_def)
      have "sort_ds self names reverse = Inr (map (\<lambda>c. (c, colf c)) (uniq so))"
        unfolding u2 rtn vals bind_e_simps zip_map_graph dict_of_graph
        using rect by (simp add: Dataset_eq)
      moreover have "map (\<lambda>c. (c, colf c)) (uniq so) = select_rows self (uniq so) p"
        by (simp add: select_rows_def colf_def)
      ultimately show ?thesis unfolding fold using sub cm False
        by (simp add: n_def)
    qed
  qed
qed


lemma sort_ds_InrI:
  assumes "distinct (columns self)" "rectangular self"
    and "set names \<subseteq> set (columns self)"
    and "comparable (map (row_key self names) [0..<record_length self])"
    and "0 < record_length self \<or> self = []"
  shows "sort_ds self names reverse
         = Inr (select_rows self (uniq (names @ filter (\<lambda>col. col \<notin> set names) (columns self)))
                  (sort_perm self names reverse))"
  using sort_ds_eq[OF assms(1,2), of names reverse] assms(3,4,5) by auto

lemma sort_order_uniq:
  assumes "distinct cs"
  shows "uniq (names @ filter (\<lambda>col. col \<notin> set names) cs)
         = uniq names @ filter (\<lambda>col. col \<notin> set names) cs"
proof -
  have "uniq (filter (\<lambda>col. col \<notin> set names) cs) = filter (\<lambda>col. col \<notin> set names) cs"
    using assms by (intro uniq_distinct) simp
  then show ?thesis by (simp add: uniq_append)
qed

lemma columns_select_rows: "columns (select_rows t cs p) = cs"
  by (simp add: columns_def select_rows_def comp_def)

lemma map_of_select_rows:
  "c \<in> set cs \<Longrightarrow> map_of (select_rows t cs p) c = Some (map (cell t c) p)"
  unfolding select_rows_def by (induction cs) auto

lemma sort_perm_sorted:
  assumes "comparable (map (row_key self names) [0..<record_length self])"
  shows "sorted_wrt (\<lambda>i j. if reverse
              then seq_lt (row_key self names i) (row_key self names j) \<noteq> Some True
              else seq_lt (row_key self names j) (row_key self names i) \<noteq> Some True)
           (sort_perm self names reverse)"
proof (cases reverse)
  case False
  then show ?thesis
    using stable_sort_sorted[OF assms] by (simp add: sort_perm_def)
next
  case True
  have "comparable (map (row_key self names) (rev [0..<record_length self]))"
    using assms unfolding comparable_def by simp
  then have "sorted_wrt (\<lambda>a b. seq_lt (row_key self names b) (row_key self names a) \<noteq> Some True)
               (stable_sort (row_key self names) (rev [0..<record_length self]))"
    by (rule stable_sort_sorted)
  then show ?thesis using True by (simp add: sort_perm_def sorted_wrt_rev)
qed

lemma sort_perm_stable:
  "sorted_wrt (\<lambda>i j. row_key self names i = row_key self names j \<longrightarrow> i < j)
     (sort_perm self names reverse)"
proof (cases reverse)
  case False
  have "sorted_wrt (<) [0..<record_length self]" by (rule sorted_wrt_upt)
  then have "sorted_wrt (\<lambda>i j. row_key self names i = row_key self names j \<longrightarrow> i < j)
               [0..<record_length self]"
    by (rule sorted_wrt_mono_rel[rotated]) simp
  then show ?thesis using False by (simp add: sort_perm_def stable_sort_stable)
next
  case True
  have "sorted_wrt (<) [0..<record_length self]" by (rule sorted_wrt_upt)
  then have "sorted_wrt (\<lambda>i j. j < i) (rev [0..<record_length self])"
    by (simp add: sorted_wrt_rev)
  then have "sorted_wrt (\<lambda>i j. row_key self names i = row_key self names j \<longrightarrow> j < i)
               (rev [0..<record_length self])"
    by (rule sorted_wrt_mono_rel[rotated]) simp
  then have "sorted_wrt (\<lambda>i j. row_key self names i = row_key self names j \<longrightarrow> j < i)
               (stable_sort (row_key self names) (rev [0..<record_length self]))"
    by (rule stable_sort_stable)
  then have "sorted_wrt (\<lambda>i j. row_key self names j = row_key self names i \<longrightarrow> i < j)
               (rev (stable_sort (row_key self names) (rev [0..<record_length self])))"
    by (simp add: sorted_wrt_rev)
  then have "sorted_wrt (\<lambda>i j. row_key self names i = row_key self names j \<longrightarrow> i < j)
               (rev (stable_sort (row_key self names) (rev [0..<record_length self])))"
    by (rule sorted_wrt_mono_rel[rotated]) simp
  then show ?thesis using True by (simp add: sort_perm_def)
qed



text \<open>
  C7, the counterexample: \<open>sort\<close> does not return a table for every table and every list
  of existing key columns. On a table with a column and no rows it raises \<open>KeyError\<close>: the
  dict built from the sorted rows (line 237) has no key, and line 238 looks every column
  up in it. On a key column that holds \<open>None\<close> and an integer the comparison of the key
  tuples raises \<open>TypeError\<close>.
\<close>

theorem sort_zero_rows_or_mixed_keys_counterexample:
  "sort_ds [(''a'', [])] [''a''] False = Inl KeyError
   \<and> sort_ds [(''a'', [VNone, VInt 1])] [''a''] False = Inl TypeError"
  by code_simp

text \<open>
  C7 as amended (\<open>sort\<close> is a stable sort that moves all columns in lockstep). Let the
  table be valid (distinct column names, columns of equal length) and have at least one
  row, its cells being \<open>None\<close>, integers, strings or lists of these; let the key columns be
  columns of the table and let the key tuples of the rows compare with each other under
  Python's \<open><\<close>. Then \<open>sort\<close> returns a table, and there is one arrangement \<open>p\<close> of the row
  indices of the input such that the result is the input read along \<open>p\<close>: it has the
  columns of the input, each once, and every column is the input column in the order \<open>p\<close>.
  Along \<open>p\<close> the key tuples never descend (never ascend, with \<open>reverse\<close>), and rows with
  equal key tuples come in their original order.
\<close>

theorem sort_is_stable_and_moves_columns_in_lockstep:
  assumes "distinct (columns self)" "rectangular self"
    and "set names \<subseteq> set (columns self)"
    and "comparable (map (row_key self names) [0..<record_length self])"
    and "0 < record_length self"
  shows "\<exists>rtn p. sort_ds self names reverse = Inr rtn
       \<and> distinct p \<and> set p = {0..<record_length self}
       \<and> distinct (columns rtn) \<and> set (columns rtn) = set (columns self)
       \<and> rtn = select_rows self (columns rtn) p
       \<and> (\<forall>c \<in> set (columns self). map_of rtn c = Some (map (cell self c) p))
       \<and> sorted_wrt (\<lambda>i j. (if reverse
                              then seq_lt (row_key self names i) (row_key self names j)
                              else seq_lt (row_key self names j) (row_key self names i))
                            = Some False) p
       \<and> sorted_wrt (\<lambda>i j. row_key self names i = row_key self names j \<longrightarrow> i < j) p"
proof -
  let ?so = "uniq (names @ filter (\<lambda>col. col \<notin> set names) (columns self))"
  let ?p = "sort_perm self names reverse"
  let ?key = "row_key self names"
  let ?rtn = "select_rows self ?so ?p"
  have ret: "sort_ds self names reverse = Inr ?rtn"
    using assms(1,2,3,4) by (rule sort_ds_InrI) (use assms(5) in simp)
  have so_set: "set ?so = set (columns self)" using assms(3) by (auto simp: set_uniq)
  have 1: "distinct ?p" by (rule distinct_sort_perm)
  have 2: "set ?p = {0..<record_length self}" by (rule set_sort_perm)
  have 3: "set (columns ?rtn) = set (columns self)"
    unfolding columns_select_rows by (rule so_set)
  have da: "distinct (columns ?rtn)"
    unfolding columns_select_rows by (rule distinct_uniq)
  have sel: "?rtn = select_rows self (columns ?rtn) ?p"
    unfolding columns_select_rows ..
  have 4: "\<forall>c \<in> set (columns self). map_of ?rtn c = Some (map (cell self c) ?p)"
    using so_set by (simp add: map_of_select_rows)
  have cmp: "\<And>i j. i \<in> set ?p \<Longrightarrow> j \<in> set ?p \<Longrightarrow> seq_lt (?key i) (?key j) \<noteq> None"
    using assms(4) unfolding comparable_def 2 by simp
  have "sorted_wrt (\<lambda>i j. if reverse then seq_lt (?key i) (?key j) \<noteq> Some True
                            else seq_lt (?key j) (?key i) \<noteq> Some True) ?p"
    using assms(4) by (rule sort_perm_sorted)
  then have 5: "sorted_wrt (\<lambda>i j. (if reverse then seq_lt (?key i) (?key j)
                                    else seq_lt (?key j) (?key i)) = Some False) ?p"
  proof (rule sorted_wrt_mono_rel[rotated])
    fix i j assume i: "i \<in> set ?p" and j: "j \<in> set ?p"
      and h: "if reverse then seq_lt (?key i) (?key j) \<noteq> Some True
              else seq_lt (?key j) (?key i) \<noteq> Some True"
    show "(if reverse then seq_lt (?key i) (?key j) else seq_lt (?key j) (?key i)) = Some False"
    proof (cases reverse)
      case True
      then have "seq_lt (?key i) (?key j) \<noteq> Some True" using h by simp
      moreover have "seq_lt (?key i) (?key j) \<noteq> None" using i j by (rule cmp)
      ultimately show ?thesis using True by (cases "seq_lt (?key i) (?key j)") auto
    next
      case False
      then have "seq_lt (?key j) (?key i) \<noteq> Some True" using h by simp
      moreover have "seq_lt (?key j) (?key i) \<noteq> None" using j i by (rule cmp)
      ultimately show ?thesis using False by (cases "seq_lt (?key j) (?key i)") auto
    qed
  qed
  have 6: "sorted_wrt (\<lambda>i j. ?key i = ?key j \<longrightarrow> i < j) ?p" by (rule sort_perm_stable)
  show ?thesis
    by (intro exI[of _ ?rtn] exI[of _ ?p] conjI ret 1 2 3 da sel 4 5 6)
qed

theorem sort_is_stable_and_moves_columns_in_lockstep_witness:
  "\<exists>p. sort_ds [(''x'', [VInt 10, VInt 20, VInt 30]), (''id'', [VInt 2, VInt 1, VInt 1])] [''id''] False
          = Inr [(''id'', [VInt 1, VInt 1, VInt 2]), (''x'', [VInt 20, VInt 30, VInt 10])]
      \<and> distinct p
      \<and> set p = {0..<record_length [(''x'', [VInt 10, VInt 20, VInt 30]), (''id'', [VInt 2, VInt 1, VInt 1])]}
      \<and> [(''id'', [VInt 1, VInt 1, VInt 2]), (''x'', [VInt 20, VInt 30, VInt 10])]
          = select_rows [(''x'', [VInt 10, VInt 20, VInt 30]), (''id'', [VInt 2, VInt 1, VInt 1])]
              [''id'', ''x''] p
      \<and> sorted_wrt (\<lambda>i j.
              row_key [(''x'', [VInt 10, VInt 20, VInt 30]), (''id'', [VInt 2, VInt 1, VInt 1])] [''id''] i
              = row_key [(''x'', [VInt 10, VInt 20, VInt 30]), (''id'', [VInt 2, VInt 1, VInt 1])] [''id''] j
              \<longrightarrow> i < j) p"
proof -
  let ?T = "[(''x'', [VInt 10, VInt 20, VInt 30]), (''id'', [VInt 2, VInt 1, VInt 1])]"
  let ?R = "[(''id'', [VInt 1, VInt 1, VInt 2]), (''x'', [VInt 20, VInt 30, VInt 10])]"
  have 1: "distinct (columns ?T)" by (simp add: columns_def)
  have 2: "rectangular ?T" by (simp add: rectangular_def)
  have 3: "set [''id''] \<subseteq> set (columns ?T)" by (simp add: columns_def)
  have 4: "comparable (map (row_key ?T [''id'']) [0..<record_length ?T])" by code_simp
  have 5: "0 < record_length ?T" by code_simp
  have 6: "sort_ds ?T [''id''] False = Inr ?R" by code_simp
  have 7: "columns ?R = [''id'', ''x'']" by (simp add: columns_def)
  from sort_is_stable_and_moves_columns_in_lockstep[OF 1 2 3 4 5, of False]
  obtain rtn p where r: "sort_ds ?T [''id''] False = Inr rtn" and p: "distinct p"
    "set p = {0..<record_length ?T}" "rtn = select_rows ?T (columns rtn) p"
    "sorted_wrt (\<lambda>i j. row_key ?T [''id''] i = row_key ?T [''id''] j \<longrightarrow> i < j) p"
    by blast
  have e: "rtn = ?R" using r 6 by simp
  have "?R = select_rows ?T [''id'', ''x''] p" using p(3) unfolding e 7 .
  then show ?thesis using 6 p(1,2,4) by blast
qed

section \<open>rename: the columns that are kept\<close>

lemma columns_dict_of: "map fst (dict_of kvs) = uniq (map fst kvs)"
proof (induction kvs rule: rev_induct)
  case Nil
  show ?case by (simp add: dict_of_def)
next
  case (snoc x kvs)
  obtain k v where x: "x = (k, v)" by (cases x)
  have s: "dict_of (kvs @ [x]) = AList.update k v (dict_of kvs)"
    by (simp add: dict_of_def x)
  have f: "fst ` set (dict_of kvs) = fst ` set kvs" by (rule fst_set_dict_of)
  show ?case
  proof (cases "k \<in> fst ` set kvs")
    case True
    then have "map fst (dict_of (kvs @ [x])) = map fst (dict_of kvs)"
      unfolding s using f by (simp add: update_keys)
    then show ?thesis using snoc.IH True by (simp add: uniq_append x)
  next
    case False
    then have "map fst (dict_of (kvs @ [x])) = map fst (dict_of kvs) @ [k]"
      unfolding s using f by (simp add: update_keys)
    then show ?thesis using snoc.IH False by (simp add: uniq_append x)
  qed
qed

text \<open>
  C6, the counterexample: renaming \<open>a\<close> to the name of the untouched column \<open>b\<close> does not
  fail; the result has the single column \<open>b\<close> and the values of \<open>a\<close> are gone.
\<close>

theorem rename_collision_counterexample:
  "rename [(''a'', [VInt 1]), (''b'', [VInt 2])] [(''a'', ''b'')] = Inr [(''b'', [VInt 2])]"
  by code_simp

text \<open>
  C6 as amended: on a valid table \<open>rename\<close> never fails. The columns of the result are the
  new names, each once, in the order of their first occurrence. When the new names are
  pairwise distinct every column is kept in its place with its values; when several
  columns get the same name, the result has one column of that name, at the place of the
  first of them, and its values are those of the column that is last in the table's
  order: the values of the earlier ones are gone.
\<close>

theorem rename_keeps_last_of_each_name:
  assumes "distinct (columns self)" "rectangular self"
  shows "\<exists>rtn. rename self rename_map = Inr rtn
     \<and> columns rtn = uniq (map (new_name rename_map) (columns self))
     \<and> distinct (columns rtn)
     \<and> set (columns rtn) = new_name rename_map ` set (columns self)
     \<and> (distinct (map (new_name rename_map) (columns self)) \<longrightarrow>
          rtn = map (\<lambda>(c, col). (new_name rename_map c, col)) self)
     \<and> (\<forall>i < length self.
          (\<forall>j < length self. i < j \<longrightarrow>
             new_name rename_map (fst (self ! j)) \<noteq> new_name rename_map (fst (self ! i)))
          \<longrightarrow> map_of rtn (new_name rename_map (fst (self ! i))) = Some (snd (self ! i)))"
proof -
  let ?items = "map (\<lambda>(c, col). (new_name rename_map c, col)) self"
  let ?rtn = "dict_of ?items"
  have r: "rename self rename_map = Inr ?rtn" using assms by (rule rename_eq)
  have fi: "map fst ?items = map (new_name rename_map) (columns self)"
    by (simp add: columns_def case_prod_beta comp_def)
  have o: "columns ?rtn = uniq (map (new_name rename_map) (columns self))"
    unfolding columns_def[of ?rtn] columns_dict_of fi ..
  have dc: "distinct (columns ?rtn)" unfolding o by (rule distinct_uniq)
  have c: "set (columns ?rtn) = new_name rename_map ` set (columns self)"
    unfolding o by (simp add: set_uniq)
  have k: "distinct (map (new_name rename_map) (columns self)) \<longrightarrow> ?rtn = ?items"
    using dict_of_distinct[of ?items] unfolding fi by blast
  have l: "\<forall>i < length self.
          (\<forall>j < length self. i < j \<longrightarrow>
             new_name rename_map (fst (self ! j)) \<noteq> new_name rename_map (fst (self ! i)))
          \<longrightarrow> map_of ?rtn (new_name rename_map (fst (self ! i))) = Some (snd (self ! i))"
  proof (intro allI impI)
    fix i assume i: "i < length self"
      and late: "\<forall>j < length self. i < j \<longrightarrow>
             new_name rename_map (fst (self ! j)) \<noteq> new_name rename_map (fst (self ! i))"
    have n: "\<And>j. j < length self \<Longrightarrow> ?items ! j = (new_name rename_map (fst (self ! j)), snd (self ! j))"
      by (simp add: case_prod_beta)
    have 1: "i < length ?items" using i by simp
    have 2: "\<forall>j < length ?items. i < j \<longrightarrow> fst (?items ! j) \<noteq> fst (?items ! i)"
    proof (intro allI impI)
      fix j assume "j < length ?items" "i < j"
      then have "j < length self" by simp
      then show "fst (?items ! j) \<noteq> fst (?items ! i)"
        using late \<open>i < j\<close> n[of j] n[OF i] by simp
    qed
    have "map_of (rev ?items) (fst (?items ! i)) = Some (snd (?items ! i))"
      using 1 2 by (rule map_of_rev_last)
    then show "map_of ?rtn (new_name rename_map (fst (self ! i))) = Some (snd (self ! i))"
      unfolding map_of_dict_of n[OF i] by simp
  qed
  show ?thesis by (intro exI[of _ ?rtn] conjI r o dc c k l)
qed

theorem rename_keeps_last_of_each_name_witness:
  "\<exists>rtn. rename [(''a'', [VInt 1]), (''b'', [VInt 2]), (''c'', [VInt 3])] [(''a'', ''c'')] = Inr rtn
     \<and> rtn = [(''c'', [VInt 3]), (''b'', [VInt 2])]
     \<and> columns rtn = [''c'', ''b'']
     \<and> map_of rtn ''c'' = Some [VInt 3]"
proof -
  let ?T = "[(''a'', [VInt 1]), (''b'', [VInt 2]), (''c'', [VInt 3])]"
  have 1: "distinct (columns ?T)" by (simp add: columns_def)
  have 2: "rectangular ?T" by (simp add: rectangular_def)
  have 3: "rename ?T [(''a'', ''c'')] = Inr [(''c'', [VInt 3]), (''b'', [VInt 2])]" by code_simp
  from rename_keeps_last_of_each_name[OF 1 2, of "[(''a'', ''c'')]"]
  obtain rtn where r: "rename ?T [(''a'', ''c'')] = Inr rtn"
    and o: "columns rtn = uniq (map (new_name [(''a'', ''c'')]) (columns ?T))"
    and l: "\<forall>i < length ?T.
          (\<forall>j < length ?T. i < j \<longrightarrow>
             new_name [(''a'', ''c'')] (fst (?T ! j)) \<noteq> new_name [(''a'', ''c'')] (fst (?T ! i)))
          \<longrightarrow> map_of rtn (new_name [(''a'', ''c'')] (fst (?T ! i))) = Some (snd (?T ! i))"
    by blast
  have e: "rtn = [(''c'', [VInt 3]), (''b'', [VInt 2])]" using r 3 by simp
  have "columns rtn = [''c'', ''b'']" unfolding o by (simp add: columns_def new_name_def)
  moreover have "map_of rtn ''c'' = Some [VInt 3]"
    using l[rule_format, of 2] by (simp add: new_name_def)
  ultimately show ?thesis using r e by blast
qed

section \<open>Loops that fill the columns of a result\<close>

lemma alist_eqI:
  assumes "map fst a = map fst b" "distinct (map fst a)" "\<forall>c \<in> set (map fst a). map_of a c = map_of b c"
  shows "a = b"
  using assms
proof (induction a arbitrary: b)
  case Nil
  then show ?case by simp
next
  case (Cons x a)
  obtain kx vx where x: "x = (kx, vx)" by (cases x)
  from Cons.prems(1) obtain y b' where b: "b = y # b'" by (cases b) auto
  obtain ky vy where y: "y = (ky, vy)" by (cases y)
  have f: "kx = ky" and m: "map fst a = map fst b'" using Cons.prems(1) b x y by simp_all
  have kx: "kx \<notin> set (map fst a)" and da: "distinct (map fst a)" using Cons.prems(2) x by simp_all
  have "kx \<in> set (map fst (x # a))" using x by simp
  then have "map_of (x # a) kx = map_of b kx" using Cons.prems(3) by blast
  then have s: "vx = vy" using f b x y by simp
  have "\<forall>c \<in> set (map fst a). map_of a c = map_of b' c"
  proof
    fix c assume c: "c \<in> set (map fst a)"
    then have ne: "c \<noteq> kx" using kx by blast
    have "c \<in> set (map fst (x # a))" using c by simp
    then have "map_of (x # a) c = map_of b c" using Cons.prems(3) by blast
    then show "map_of a c = map_of b' c" using ne f b x y by simp
  qed
  then have "a = b'" using Cons.IH[OF m da] by simp
  then show ?case using b f s x y by simp
qed

lemma fold_e_filter:
  "fold_e (\<lambda>x r. if P x then f x r else Inr r) xs r = fold_e f (filter P xs) r"
proof (induction xs arbitrary: r)
  case Nil
  show ?case by simp
next
  case (Cons x xs)
  have "fold_e (\<lambda>x r. if P x then f x r else Inr r) xs = fold_e f (filter P xs)"
    by (rule ext) (rule Cons.IH)
  then show ?case by simp
qed

lemma fold_e_update:
  assumes "distinct (map nm xs)" "nm ` set xs \<subseteq> fst ` set rtn" "distinct (map fst rtn)"
    and "\<forall>x \<in> set xs. \<forall>r. distinct (map fst r) \<longrightarrow> map fst r = map fst rtn \<longrightarrow> map_of r (nm x) = map_of rtn (nm x)
           \<longrightarrow> step x r = Inr (AList.update (nm x) (h x) r)"
  shows "\<exists>r'. fold_e step xs rtn = Inr r' \<and> map fst r' = map fst rtn
           \<and> (\<forall>x \<in> set xs. map_of r' (nm x) = Some (h x))
           \<and> (\<forall>c. c \<notin> nm ` set xs \<longrightarrow> map_of r' c = map_of rtn c)"
  using assms
proof (induction xs arbitrary: rtn)
  case Nil
  show ?case by simp
next
  case (Cons x xs)
  let ?r1 = "AList.update (nm x) (h x) rtn"
  have s1: "step x rtn = Inr ?r1" using Cons.prems(3,4) by simp
  have k1: "map fst ?r1 = map fst rtn" using Cons.prems(2) by (simp add: update_keys)
  have d1: "distinct (map fst ?r1)" using Cons.prems(3) by (simp add: distinct_update)
  have m1: "\<And>c. c \<noteq> nm x \<Longrightarrow> map_of ?r1 c = map_of rtn c" by (simp add: update_conv')
  have p1: "distinct (map nm xs)" using Cons.prems(1) by simp
  have p2: "nm ` set xs \<subseteq> fst ` set ?r1"
    using Cons.prems(2) k1 by (metis (no_types, lifting) insert_subset list.simps(15) list.set_map image_insert)
  have p4: "\<forall>y \<in> set xs. \<forall>r. distinct (map fst r) \<longrightarrow> map fst r = map fst ?r1
              \<longrightarrow> map_of r (nm y) = map_of ?r1 (nm y) \<longrightarrow> step y r = Inr (AList.update (nm y) (h y) r)"
  proof (intro ballI allI impI)
    fix y r assume y: "y \<in> set xs" and dr: "distinct (map fst r)" and kr: "map fst r = map fst ?r1"
      and mr: "map_of r (nm y) = map_of ?r1 (nm y)"
    have "nm x \<notin> set (map nm xs)" using Cons.prems(1) by simp
    then have "nm y \<noteq> nm x" using y by (metis image_eqI list.set_map)
    then have "map_of r (nm y) = map_of rtn (nm y)" using mr m1 by simp
    then show "step y r = Inr (AList.update (nm y) (h y) r)"
      using Cons.prems(4) y dr kr k1 by simp
  qed
  obtain r' where r': "fold_e step xs ?r1 = Inr r'" "map fst r' = map fst ?r1"
      "\<forall>y \<in> set xs. map_of r' (nm y) = Some (h y)"
      "\<forall>c. c \<notin> nm ` set xs \<longrightarrow> map_of r' c = map_of ?r1 c"
    using Cons.IH[OF p1 p2 d1 p4] by blast
  have a: "fold_e step (x # xs) rtn = Inr r'" using s1 r'(1) by simp
  have b: "map fst r' = map fst rtn" using r'(2) k1 by simp
  have "nm x \<notin> nm ` set xs" using Cons.prems(1) by auto
  then have "map_of r' (nm x) = map_of ?r1 (nm x)" using r'(4) by blast
  then have c: "map_of r' (nm x) = Some (h x)" by (simp add: update_conv')
  have d: "\<forall>c. c \<notin> nm ` set (x # xs) \<longrightarrow> map_of r' c = map_of rtn c"
    using r'(4) m1 by simp
  show ?case using a b c d r'(3) by simp
qed

section \<open>group\_by\<close>

lemma getitem_record_of: "c \<in> set cs \<Longrightarrow> getitem (record_of t cs j) c = Inr (cell t c j)"
proof -
  assume "c \<in> set cs"
  then have "map_of (record_of t cs j) c = Some (cell t c j)"
    unfolding record_of_def by (induction cs) auto
  then show ?thesis by (simp add: getitem_def)
qed

lemma map_e_getitem_record_of:
  "set gc \<subseteq> set cs \<Longrightarrow> map_e (getitem (record_of t cs j)) gc = Inr (row_key t gc j)"
  unfolding row_key_def by (rule map_e_Inr) (auto simp: getitem_record_of)

lemma rows_select_rows:
  assumes "cs \<noteq> []"
  shows "rows (select_rows t cs p) = map (\<lambda>j. map (\<lambda>c. cell t c j) cs) p"
proof -
  have "rows (select_rows t cs p) = zip_star (map (\<lambda>c. map (cell t c) p) cs)"
    by (simp add: rows_def select_rows_def comp_def)
  also have "\<dots> = map (\<lambda>i. map (\<lambda>c. map (cell t c) p ! i) cs) [0..<length p]"
    by (rule zip_star_columns) (use assms in simp_all)
  also have "\<dots> = map (\<lambda>i. map (\<lambda>c. cell t c (p ! i)) cs) [0..<length p]"
    by simp
  also have "\<dots> = map (\<lambda>j. map (\<lambda>c. cell t c j) cs) p"
    by (rule map_nth_graph)
  finally show ?thesis .
qed

lemma records_select_rows:
  assumes "cs \<noteq> []" "distinct cs"
  shows "records (select_rows t cs p) = map (record_of t cs) p"
proof -
  have "\<And>j. dict_of (zip cs (map (\<lambda>c. cell t c j) cs)) = record_of t cs j"
    unfolding zip_map_graph record_of_def
    by (rule dict_of_distinct) (simp add: comp_def assms(2))
  then show ?thesis
    by (simp add: records_def rows_select_rows[OF assms(1)] columns_select_rows comp_def)
qed

lemma append_col_Some:
  "map_of r c = Some col \<Longrightarrow> append_col r c (Inr x) = Inr (AList.update c (col @ [x]) r)"
  by (simp add: append_col_def getitem_def)

lemma append_last_Some:
  "map_of r c = Some col \<Longrightarrow> col \<noteq> [] \<Longrightarrow> last col = VList xs
     \<Longrightarrow> append_last r c (Inr x) = Inr (AList.update c (butlast col @ [VList (xs @ [x])]) r)"
  by (simp add: append_last_def getitem_def)

lemma incr_last_Some:
  "map_of r c = Some col \<Longrightarrow> col \<noteq> [] \<Longrightarrow> last col = VInt n
     \<Longrightarrow> incr_last r c = Inr (AList.update c (butlast col @ [VInt (n + 1)]) r)"
  by (simp add: incr_last_def getitem_def)

lemma add_row_last:
  "add_row key gs j \<noteq> [] \<and> fst (last (add_row key gs j)) = key j"
  by (simp add: add_row_def)

lemma group_column_snoc:
  "group_column t gc oc (gs @ [(k, ms)]) c = group_column t gc oc gs c @
     [if c \<in> set gc then the (map_of (zip gc k) c)
      else if c \<in> set oc then VList (map (cell t c) ms) else VInt (int (length ms))]"
  by (simp add: group_column_def)

lemma group_column_Nil: "group_column t gc oc [] c = []"
  by (simp add: group_column_def)

lemma length_group_column: "length (group_column t gc oc gs c) = length gs"
  by (simp add: group_column_def)

lemma map_of_zip_row_key:
  "g \<in> set gc \<Longrightarrow> the (map_of (zip gc (row_key t gc j)) g) = cell t g j"
  by (simp add: row_key_def map_of_zip_map)

lemma fill_other_and_count:
  assumes d: "distinct (map fst rtn)" and so: "set oc \<subseteq> fst ` set rtn" and doc: "distinct oc"
    and dc: "\<forall>c. count = Some c \<longrightarrow> c \<in> fst ` set rtn \<and> c \<notin> set oc"
    and step2: "\<forall>c \<in> set oc. \<forall>r. distinct (map fst r) \<longrightarrow> map fst r = map fst rtn
                  \<longrightarrow> map_of r c = map_of rtn c \<longrightarrow> s2 c r = Inr (AList.update c (H c) r)"
    and step3: "\<forall>c. count = Some c \<longrightarrow> (\<forall>r. distinct (map fst r) \<longrightarrow> map fst r = map fst rtn
                  \<longrightarrow> map_of r c = map_of rtn c \<longrightarrow> s3 r c = Inr (AList.update c (H c) r))"
  shows "\<exists>r'. bind_e (fold_e s2 oc rtn) (\<lambda>r1. case count of None \<Rightarrow> Inr r1 | Some c \<Rightarrow> s3 r1 c) = Inr r'
           \<and> map fst r' = map fst rtn
           \<and> (\<forall>c \<in> set oc. map_of r' c = Some (H c))
           \<and> (\<forall>c. count = Some c \<longrightarrow> map_of r' c = Some (H c))
           \<and> (\<forall>c. c \<notin> set oc \<longrightarrow> count \<noteq> Some c \<longrightarrow> map_of r' c = map_of rtn c)"
proof -
  have 1: "distinct (map (\<lambda>c. c) oc)" using doc by simp
  have 2: "(\<lambda>c. c) ` set oc \<subseteq> fst ` set rtn" using so by simp
  obtain r1 where r1: "fold_e s2 oc rtn = Inr r1" "map fst r1 = map fst rtn"
      "\<forall>c \<in> set oc. map_of r1 c = Some (H c)"
      "\<forall>c. c \<notin> (\<lambda>c. c) ` set oc \<longrightarrow> map_of r1 c = map_of rtn c"
    using fold_e_update[of "\<lambda>c. c" oc rtn s2 H, OF 1 2 d step2] by blast
  have d1: "distinct (map fst r1)" using r1(2) d by simp
  show ?thesis
  proof (cases count)
    case None
    then show ?thesis using r1 by simp
  next
    case (Some c)
    have c: "c \<in> fst ` set rtn" "c \<notin> set oc" using dc Some by simp_all
    have "map_of r1 c = map_of rtn c" using r1(4) c(2) by simp
    then have s: "s3 r1 c = Inr (AList.update c (H c) r1)"
      using step3 Some d1 r1(2) by blast
    let ?r' = "AList.update c (H c) r1"
    have k: "map fst ?r' = map fst rtn" using c(1) r1(2) by (simp add: update_keys)
    have a: "\<forall>x \<in> set oc. map_of ?r' x = Some (H x)"
      using r1(3) c(2) by (auto simp: update_conv')
    have b: "map_of ?r' c = Some (H c)" by (simp add: update_conv')
    have e: "\<forall>x. x \<notin> set oc \<longrightarrow> count \<noteq> Some x \<longrightarrow> map_of ?r' x = map_of rtn x"
      using r1(4) Some by (simp add: update_conv')
    show ?thesis using Some r1(1) s k a b e by simp
  qed
qed

lemma group_step_same:
  assumes dK: "distinct (gc @ oc @ (case count of None \<Rightarrow> [] | Some c \<Rightarrow> [c]))"
    and sub: "set oc \<subseteq> set cs"
    and inv: "group_inv t gc oc count (gs0 @ [(k, ml)]) rtn"
  shows "\<exists>rtn'. bind_e (fold_e (\<lambda>c r. append_last r c (getitem (record_of t cs j) c)) oc rtn)
                   (\<lambda>rtn1. case count of None \<Rightarrow> Inr rtn1 | Some c \<Rightarrow> incr_last rtn1 c) = Inr rtn'
               \<and> group_inv t gc oc count (gs0 @ [(k, ml @ [j])]) rtn'"
proof -
  let ?K = "gc @ oc @ (case count of None \<Rightarrow> [] | Some c \<Rightarrow> [c])"
  let ?gs = "gs0 @ [(k, ml)]" and ?gs' = "gs0 @ [(k, ml @ [j])]"
  let ?H = "group_column t gc oc ?gs'"
  have keys: "map fst rtn = ?K" using inv by (simp add: group_inv_def)
  have cont0: "\<forall>c \<in> set (map fst rtn). map_of rtn c = Some (group_column t gc oc ?gs c)"
    using inv unfolding group_inv_def by (rule conjunct2)
  have cont: "\<And>c. c \<in> set ?K \<Longrightarrow> map_of rtn c = Some (group_column t gc oc ?gs c)"
    using cont0 unfolding keys by blast
  have d: "distinct (map fst rtn)" using dK keys by simp
  have so: "set oc \<subseteq> fst ` set rtn"
  proof -
    have "set oc \<subseteq> set (map fst rtn)" unfolding keys by auto
    then show ?thesis by simp
  qed
  have doc: "distinct oc" using dK by simp
  have dc: "\<forall>c. count = Some c \<longrightarrow> c \<in> fst ` set rtn \<and> c \<notin> set oc"
  proof (intro allI impI)
    fix c assume c: "count = Some c"
    have "c \<in> set (map fst rtn)" unfolding keys using c by simp
    moreover have "c \<notin> set oc" using dK c by simp
    ultimately show "c \<in> fst ` set rtn \<and> c \<notin> set oc" by simp
  qed
  have step2: "\<forall>c \<in> set oc. \<forall>r. distinct (map fst r) \<longrightarrow> map fst r = map fst rtn
                  \<longrightarrow> map_of r c = map_of rtn c
                  \<longrightarrow> append_last r c (getitem (record_of t cs j) c) = Inr (AList.update c (?H c) r)"
  proof (intro ballI allI impI)
    fix c r assume c: "c \<in> set oc" and m: "map_of r c = map_of rtn c"
    have ng: "c \<notin> set gc" using dK c by auto
    have g: "getitem (record_of t cs j) c = Inr (cell t c j)"
      using c sub by (intro getitem_record_of) blast
    have "map_of r c = Some (group_column t gc oc ?gs c)" using m cont c by simp
    moreover have "group_column t gc oc ?gs c \<noteq> []" by (simp add: group_column_snoc)
    moreover have "last (group_column t gc oc ?gs c) = VList (map (cell t c) ml)"
      using c ng by (simp add: group_column_snoc)
    ultimately have "append_last r c (Inr (cell t c j))
        = Inr (AList.update c (butlast (group_column t gc oc ?gs c)
                                 @ [VList (map (cell t c) ml @ [cell t c j])]) r)"
      by (rule append_last_Some)
    moreover have "butlast (group_column t gc oc ?gs c) @ [VList (map (cell t c) ml @ [cell t c j])]
                   = ?H c"
      using c ng by (simp add: group_column_snoc)
    ultimately show "append_last r c (getitem (record_of t cs j) c) = Inr (AList.update c (?H c) r)"
      using g by simp
  qed
  have step3: "\<forall>c. count = Some c \<longrightarrow> (\<forall>r. distinct (map fst r) \<longrightarrow> map fst r = map fst rtn
                  \<longrightarrow> map_of r c = map_of rtn c \<longrightarrow> incr_last r c = Inr (AList.update c (?H c) r))"
  proof (intro allI impI)
    fix c r assume c: "count = Some c" and m: "map_of r c = map_of rtn c"
    have ng: "c \<notin> set gc" "c \<notin> set oc" using dK c by auto
    have "map_of r c = Some (group_column t gc oc ?gs c)" using m cont c by simp
    moreover have "group_column t gc oc ?gs c \<noteq> []" by (simp add: group_column_snoc)
    moreover have "last (group_column t gc oc ?gs c) = VInt (int (length ml))"
      using ng by (simp add: group_column_snoc)
    ultimately have "incr_last r c
        = Inr (AList.update c (butlast (group_column t gc oc ?gs c) @ [VInt (int (length ml) + 1)]) r)"
      by (rule incr_last_Some)
    moreover have "butlast (group_column t gc oc ?gs c) @ [VInt (int (length ml) + 1)] = ?H c"
      using ng by (simp add: group_column_snoc)
    ultimately show "incr_last r c = Inr (AList.update c (?H c) r)" by simp
  qed
  obtain r' where r': "bind_e (fold_e (\<lambda>c r. append_last r c (getitem (record_of t cs j) c)) oc rtn)
                   (\<lambda>rtn1. case count of None \<Rightarrow> Inr rtn1 | Some c \<Rightarrow> incr_last rtn1 c) = Inr r'"
      "map fst r' = map fst rtn" "\<forall>c \<in> set oc. map_of r' c = Some (?H c)"
      "\<forall>c. count = Some c \<longrightarrow> map_of r' c = Some (?H c)"
      "\<forall>c. c \<notin> set oc \<longrightarrow> count \<noteq> Some c \<longrightarrow> map_of r' c = map_of rtn c"
    using fill_other_and_count[of rtn oc count "\<lambda>c r. append_last r c (getitem (record_of t cs j) c)"
            ?H incr_last, OF d so doc dc step2 step3] by blast
  have "\<forall>c \<in> set (map fst r'). map_of r' c = Some (?H c)"
  proof
    fix c assume "c \<in> set (map fst r')"
    then have cK: "c \<in> set ?K" using r'(2) keys by simp
    show "map_of r' c = Some (?H c)"
    proof (cases "c \<in> set oc \<or> count = Some c")
      case True
      then show ?thesis using r'(3,4) by blast
    next
      case False
      then have cg: "c \<in> set gc" using cK by (cases count) auto
      have "map_of r' c = map_of rtn c" using r'(5) False by blast
      also have "\<dots> = Some (group_column t gc oc ?gs c)" using cont cK by simp
      also have "group_column t gc oc ?gs c = ?H c" using cg by (simp add: group_column_snoc)
      finally show ?thesis .
    qed
  qed
  then have "group_inv t gc oc count ?gs' r'"
    using r'(2) keys by (simp add: group_inv_def)
  then show ?thesis using r'(1) by blast
qed

lemma group_step_new:
  assumes dK: "distinct (gc @ oc @ (case count of None \<Rightarrow> [] | Some c \<Rightarrow> [c]))"
    and subg: "set gc \<subseteq> set cs" and sub: "set oc \<subseteq> set cs"
    and inv: "group_inv t gc oc count gs rtn"
  shows "\<exists>rtn'. bind_e (fold_e (\<lambda>g r. append_col r g (getitem (record_of t cs j) g)) gc rtn) (\<lambda>rtn1.
               bind_e (fold_e (\<lambda>c r. append_col r c
                                  (bind_e (getitem (record_of t cs j) c) (\<lambda>x. Inr (VList [x])))) oc rtn1) (\<lambda>rtn2.
                 case count of None \<Rightarrow> Inr rtn2 | Some c \<Rightarrow> append_col rtn2 c (Inr (VInt 1)))) = Inr rtn'
               \<and> group_inv t gc oc count (gs @ [(row_key t gc j, [j])]) rtn'"
proof -
  let ?K = "gc @ oc @ (case count of None \<Rightarrow> [] | Some c \<Rightarrow> [c])"
  let ?gs' = "gs @ [(row_key t gc j, [j])]"
  let ?G = "group_column t gc oc gs"
  let ?H = "group_column t gc oc ?gs'"
  let ?rec = "record_of t cs j"
  have keys: "map fst rtn = ?K" using inv by (simp add: group_inv_def)
  have cont0: "\<forall>c \<in> set (map fst rtn). map_of rtn c = Some (?G c)"
    using inv unfolding group_inv_def by (rule conjunct2)
  have cont: "\<And>c. c \<in> set ?K \<Longrightarrow> map_of rtn c = Some (?G c)"
    using cont0 unfolding keys by blast
  have d: "distinct (map fst rtn)" using dK keys by simp
  have dg: "distinct (map (\<lambda>c. c) gc)" using dK by simp
  have sg: "(\<lambda>c. c) ` set gc \<subseteq> fst ` set rtn"
  proof -
    have "set gc \<subseteq> set (map fst rtn)" unfolding keys by auto
    then show ?thesis by simp
  qed
  have step1: "\<forall>g \<in> set gc. \<forall>r. distinct (map fst r) \<longrightarrow> map fst r = map fst rtn
                  \<longrightarrow> map_of r g = map_of rtn g
                  \<longrightarrow> append_col r g (getitem ?rec g) = Inr (AList.update g (?H g) r)"
  proof (intro ballI allI impI)
    fix g r assume g: "g \<in> set gc" and m: "map_of r g = map_of rtn g"
    have gi: "getitem ?rec g = Inr (cell t g j)"
      using g subg by (intro getitem_record_of) blast
    have "map_of r g = Some (?G g)" using m cont g by simp
    then have "append_col r g (Inr (cell t g j)) = Inr (AList.update g (?G g @ [cell t g j]) r)"
      by (rule append_col_Some)
    moreover have "?G g @ [cell t g j] = ?H g"
      using g by (simp add: group_column_snoc map_of_zip_row_key)
    ultimately show "append_col r g (getitem ?rec g) = Inr (AList.update g (?H g) r)"
      using gi by simp
  qed
  obtain r1 where r1: "fold_e (\<lambda>g r. append_col r g (getitem ?rec g)) gc rtn = Inr r1"
      "map fst r1 = map fst rtn" "\<forall>g \<in> set gc. map_of r1 g = Some (?H g)"
      "\<forall>c. c \<notin> (\<lambda>c. c) ` set gc \<longrightarrow> map_of r1 c = map_of rtn c"
    using fold_e_update[of "\<lambda>c. c" gc rtn "\<lambda>g r. append_col r g (getitem ?rec g)" ?H,
            OF dg sg d step1] by blast
  have d1: "distinct (map fst r1)" using r1(2) d by simp
  have k1: "map fst r1 = ?K" using r1(2) keys by simp
  have so: "set oc \<subseteq> fst ` set r1"
  proof -
    have "set oc \<subseteq> set (map fst r1)" unfolding k1 by auto
    then show ?thesis by simp
  qed
  have doc: "distinct oc" using dK by simp
  have dc: "\<forall>c. count = Some c \<longrightarrow> c \<in> fst ` set r1 \<and> c \<notin> set oc"
  proof (intro allI impI)
    fix c assume c: "count = Some c"
    have "c \<in> set (map fst r1)" unfolding k1 using c by simp
    moreover have "c \<notin> set oc" using dK c by simp
    ultimately show "c \<in> fst ` set r1 \<and> c \<notin> set oc" by simp
  qed
  have step2: "\<forall>c \<in> set oc. \<forall>r. distinct (map fst r) \<longrightarrow> map fst r = map fst r1
                  \<longrightarrow> map_of r c = map_of r1 c
                  \<longrightarrow> append_col r c (bind_e (getitem ?rec c) (\<lambda>x. Inr (VList [x])))
                      = Inr (AList.update c (?H c) r)"
  proof (intro ballI allI impI)
    fix c r assume c: "c \<in> set oc" and m: "map_of r c = map_of r1 c"
    have ng: "c \<notin> set gc" using dK c by auto
    have gi: "getitem ?rec c = Inr (cell t c j)"
      using c sub by (intro getitem_record_of) blast
    have "map_of r1 c = map_of rtn c" using r1(4) ng by simp
    then have "map_of r c = Some (?G c)" using m cont c by simp
    then have "append_col r c (Inr (VList [cell t c j]))
               = Inr (AList.update c (?G c @ [VList [cell t c j]]) r)"
      by (rule append_col_Some)
    moreover have "?G c @ [VList [cell t c j]] = ?H c"
      using c ng by (simp add: group_column_snoc)
    ultimately show "append_col r c (bind_e (getitem ?rec c) (\<lambda>x. Inr (VList [x])))
                      = Inr (AList.update c (?H c) r)"
      using gi by simp
  qed
  have step3: "\<forall>c. count = Some c \<longrightarrow> (\<forall>r. distinct (map fst r) \<longrightarrow> map fst r = map fst r1
                  \<longrightarrow> map_of r c = map_of r1 c
                  \<longrightarrow> append_col r c (Inr (VInt 1)) = Inr (AList.update c (?H c) r))"
  proof (intro allI impI)
    fix c r assume c: "count = Some c" and m: "map_of r c = map_of r1 c"
    have ng: "c \<notin> set gc" "c \<notin> set oc" using dK c by auto
    have "map_of r1 c = map_of rtn c" using r1(4) ng by simp
    then have "map_of r c = Some (?G c)" using m cont c by simp
    then have "append_col r c (Inr (VInt 1)) = Inr (AList.update c (?G c @ [VInt 1]) r)"
      by (rule append_col_Some)
    moreover have "?G c @ [VInt 1] = ?H c"
      using ng by (simp add: group_column_snoc)
    ultimately show "append_col r c (Inr (VInt 1)) = Inr (AList.update c (?H c) r)" by simp
  qed
  obtain r' where r': "bind_e (fold_e (\<lambda>c r. append_col r c
                                  (bind_e (getitem ?rec c) (\<lambda>x. Inr (VList [x])))) oc r1)
                   (\<lambda>rtn2. case count of None \<Rightarrow> Inr rtn2 | Some c \<Rightarrow> append_col rtn2 c (Inr (VInt 1)))
                  = Inr r'"
      "map fst r' = map fst r1" "\<forall>c \<in> set oc. map_of r' c = Some (?H c)"
      "\<forall>c. count = Some c \<longrightarrow> map_of r' c = Some (?H c)"
      "\<forall>c. c \<notin> set oc \<longrightarrow> count \<noteq> Some c \<longrightarrow> map_of r' c = map_of r1 c"
    using fill_other_and_count[of r1 oc count
            "\<lambda>c r. append_col r c (bind_e (getitem ?rec c) (\<lambda>x. Inr (VList [x])))"
            ?H "\<lambda>r c. append_col r c (Inr (VInt 1))", OF d1 so doc dc step2 step3] by blast
  have "\<forall>c \<in> set (map fst r'). map_of r' c = Some (?H c)"
  proof
    fix c assume "c \<in> set (map fst r')"
    then have cK: "c \<in> set ?K" using r'(2) k1 by simp
    show "map_of r' c = Some (?H c)"
    proof (cases "c \<in> set oc \<or> count = Some c")
      case True
      then show ?thesis using r'(3,4) by blast
    next
      case False
      then have cg: "c \<in> set gc" using cK by (cases count) auto
      have "map_of r' c = map_of r1 c" using r'(5) False by blast
      then show ?thesis using r1(3) cg by simp
    qed
  qed
  then have "group_inv t gc oc count ?gs' r'"
    using r'(2) k1 by (simp add: group_inv_def)
  then show ?thesis using r1(1) r'(1) by simp
qed

lemma group_step_add_row:
  assumes dK: "distinct (gc @ oc @ (case count of None \<Rightarrow> [] | Some c \<Rightarrow> [c]))"
    and subg: "set gc \<subseteq> set cs" and sub: "set oc \<subseteq> set cs"
    and inv: "group_inv t gc oc count gs rtn"
  shows "\<exists>rtn'. group_step gc oc count (record_of t cs j)
                 (if gs = [] then None else Some (fst (last gs)), rtn)
               = Inr (Some (row_key t gc j), rtn')
             \<and> group_inv t gc oc count (add_row (row_key t gc) gs j) rtn'"
proof (cases "gs \<noteq> [] \<and> fst (last gs) = row_key t gc j")
  case True
  define gs0 where "gs0 = butlast gs"
  define ml where "ml = snd (last gs)"
  have gs: "gs = gs0 @ [(row_key t gc j, ml)]"
    using True unfolding gs0_def ml_def
    by (metis append_butlast_last_id prod.collapse)
  have inv': "group_inv t gc oc count (gs0 @ [(row_key t gc j, ml)]) rtn" using inv gs by simp
  obtain rtn' where r: "bind_e (fold_e (\<lambda>c r. append_last r c (getitem (record_of t cs j) c)) oc rtn)
                   (\<lambda>rtn1. case count of None \<Rightarrow> Inr rtn1 | Some c \<Rightarrow> incr_last rtn1 c) = Inr rtn'"
      "group_inv t gc oc count (gs0 @ [(row_key t gc j, ml @ [j])]) rtn'"
    using group_step_same[OF dK sub inv', of j] by blast
  have a: "add_row (row_key t gc) gs j = gs0 @ [(row_key t gc j, ml @ [j])]"
    using True by (simp add: add_row_def gs0_def ml_def)
  have "group_step gc oc count (record_of t cs j) (if gs = [] then None else Some (fst (last gs)), rtn)
        = Inr (Some (row_key t gc j), rtn')"
    using True r(1) by (simp add: group_step_def map_e_getitem_record_of[OF subg])
  then show ?thesis using r(2) a by simp
next
  case False
  obtain rtn' where r: "bind_e (fold_e (\<lambda>g r. append_col r g (getitem (record_of t cs j) g)) gc rtn) (\<lambda>rtn1.
               bind_e (fold_e (\<lambda>c r. append_col r c
                                  (bind_e (getitem (record_of t cs j) c) (\<lambda>x. Inr (VList [x])))) oc rtn1) (\<lambda>rtn2.
                 case count of None \<Rightarrow> Inr rtn2 | Some c \<Rightarrow> append_col rtn2 c (Inr (VInt 1)))) = Inr rtn'"
      "group_inv t gc oc count (gs @ [(row_key t gc j, [j])]) rtn'"
    using group_step_new[OF dK subg sub inv, of j] by blast
  have a: "add_row (row_key t gc) gs j = gs @ [(row_key t gc j, [j])]"
    unfolding add_row_def using False by (rule if_not_P)
  have ne: "Some (row_key t gc j) \<noteq> (if gs = [] then None else Some (fst (last gs)))"
    using False by auto
  have "group_step gc oc count (record_of t cs j) (if gs = [] then None else Some (fst (last gs)), rtn)
        = Inr (Some (row_key t gc j), rtn')"
    using ne r(1) by (simp add: group_step_def map_e_getitem_record_of[OF subg])
  then show ?thesis using r(2) a by simp
qed

lemma group_fold:
  assumes dK: "distinct (gc @ oc @ (case count of None \<Rightarrow> [] | Some c \<Rightarrow> [c]))"
    and subg: "set gc \<subseteq> set cs" and sub: "set oc \<subseteq> set cs"
    and inv: "group_inv t gc oc count gs rtn"
  shows "\<exists>st. fold_e (group_step gc oc count) (map (record_of t cs) js)
                 (if gs = [] then None else Some (fst (last gs)), rtn) = Inr st
             \<and> group_inv t gc oc count (foldl (add_row (row_key t gc)) gs js) (snd st)"
  using inv
proof (induction js arbitrary: gs rtn)
  case Nil
  then show ?case by simp
next
  case (Cons j js)
  let ?gs1 = "add_row (row_key t gc) gs j"
  obtain rtn1 where s: "group_step gc oc count (record_of t cs j)
                 (if gs = [] then None else Some (fst (last gs)), rtn)
               = Inr (Some (row_key t gc j), rtn1)"
      "group_inv t gc oc count ?gs1 rtn1"
    using group_step_add_row[OF dK subg sub Cons.prems, of j] by blast
  have l: "(if ?gs1 = [] then None else Some (fst (last ?gs1))) = Some (row_key t gc j)"
    using add_row_last[of "row_key t gc" gs j] by simp
  obtain st where st: "fold_e (group_step gc oc count) (map (record_of t cs) js)
                 (if ?gs1 = [] then None else Some (fst (last ?gs1)), rtn1) = Inr st"
      "group_inv t gc oc count (foldl (add_row (row_key t gc)) ?gs1 js) (snd st)"
    using Cons.IH[OF s(2)] by blast
  have "fold_e (group_step gc oc count) (map (record_of t cs) (j # js))
                 (if gs = [] then None else Some (fst (last gs)), rtn) = Inr st"
    using s(1) st(1) unfolding l by simp
  then show ?case using st(2) by simp
qed

lemma sorted_key_in_prefix:
  assumes s: "sorted_wrt (\<lambda>a b. seq_lt (key b) (key a) \<noteq> Some True) (js @ [j])"
    and c: "comparable (map key (js @ [j]))"
    and ne: "js \<noteq> []" and i: "i \<in> set js" "key i = key j"
  shows "key j = key (last js)"
proof (rule ccontr)
  assume d: "key j \<noteq> key (last js)"
  have l: "last js \<in> set js" using ne by simp
  have 1: "seq_lt (key j) (key (last js)) \<noteq> Some True"
    using s l by (simp add: sorted_wrt_append)
  have "seq_lt (key j) (key (last js)) \<noteq> None"
    using c l unfolding comparable_def by simp
  then have "seq_lt (key j) (key (last js)) = Some False"
    using 1 by (cases "seq_lt (key j) (key (last js))") auto
  then have 2: "seq_lt (key (last js)) (key j) = Some True"
    using lt_total(2) d by blast
  have "i = last js \<or> seq_lt (key (last js)) (key i) \<noteq> Some True"
  proof (cases "i = last js")
    case True
    then show ?thesis by simp
  next
    case False
    obtain us where us: "js = us @ [last js]" using ne by (metis append_butlast_last_id)
    have "set js = insert (last js) (set us)" by (subst us) simp
    then have iu: "i \<in> set us" using i(1) False by simp
    have "sorted_wrt (\<lambda>a b. seq_lt (key b) (key a) \<noteq> Some True) (us @ [last js])"
      using s us by (simp add: sorted_wrt_append)
    then have "\<forall>y \<in> set us. seq_lt (key (last js)) (key y) \<noteq> Some True"
      by (simp add: sorted_wrt_append)
    then show ?thesis using iu by blast
  qed
  then show False using 2 i(2) d by auto
qed

lemma uniq_snoc: "uniq (xs @ [x]) = (if x \<in> set xs then uniq xs else uniq xs @ [x])"
  by (simp add: uniq_append)

lemma runs_sorted:
  assumes "sorted_wrt (\<lambda>a b. seq_lt (key b) (key a) \<noteq> Some True) js"
    and "comparable (map key js)"
  shows "foldl (add_row key) [] js
           = map (\<lambda>k. (k, filter (\<lambda>j. key j = k) js)) (uniq (map key js))
       \<and> (js \<noteq> [] \<longrightarrow> last (uniq (map key js)) = key (last js))"
  using assms
proof (induction js rule: rev_induct)
  case Nil
  show ?case by simp
next
  case (snoc j js)
  let ?ks = "map key js"
  let ?G = "\<lambda>k. (k, filter (\<lambda>i. key i = k) js)"
  let ?G' = "\<lambda>k. (k, filter (\<lambda>i. key i = k) (js @ [j]))"
  define gs where "gs = foldl (add_row key) [] js"
  have s: "sorted_wrt (\<lambda>a b. seq_lt (key b) (key a) \<noteq> Some True) js"
    using snoc.prems(1) by (simp add: sorted_wrt_append)
  have c: "comparable (map key js)" using snoc.prems(2) unfolding comparable_def by simp
  have IH1: "gs = map ?G (uniq ?ks)" and IH2: "js \<noteq> [] \<longrightarrow> last (uniq ?ks) = key (last js)"
    using snoc.IH[OF s c] by (simp_all add: gs_def)
  have f: "foldl (add_row key) [] (js @ [j]) = add_row key gs j" by (simp add: gs_def)
  have G'other: "\<And>k. k \<noteq> key j \<Longrightarrow> ?G' k = ?G k" by auto
  show ?case
  proof (cases "js = []")
    case True
    then show ?thesis by (simp add: add_row_def)
  next
    case ne: False
    have une: "uniq ?ks \<noteq> []"
    proof
      assume "uniq ?ks = []"
      then have "set ?ks = {}" using set_uniq[of ?ks] by simp
      then show False using ne by simp
    qed
    have gne: "gs \<noteq> []" using une IH1 by simp
    have lg: "fst (last gs) = key (last js)"
      using IH1 IH2 ne une by (simp add: last_map)
    obtain us where us: "uniq ?ks = us @ [key (last js)]"
      using une IH2 ne by (metis append_butlast_last_id)
    have dus: "key (last js) \<notin> set us"
      using distinct_uniq[of ?ks] unfolding us by simp
    show ?thesis
    proof (cases "key j = key (last js)")
      case True
      have inks: "key j \<in> set ?ks" using True ne by (metis last_in_set imageI list.set_map)
      have u: "uniq (map key (js @ [j])) = uniq ?ks" using inks by (simp add: uniq_snoc)
      have a: "add_row key gs j = butlast gs @ [(key j, snd (last gs) @ [j])]"
        unfolding add_row_def using gne lg True by simp
      have b: "butlast gs = map ?G us" using IH1 us by (simp add: butlast_append)
      have b': "snd (last gs) = filter (\<lambda>i. key i = key j) js"
        using IH1 us True by simp
      have "map ?G' (uniq ?ks) = map ?G' us @ [?G' (key j)]" using us True by simp
      also have "map ?G' us = map ?G us"
      proof (rule map_cong[OF refl])
        fix k assume "k \<in> set us"
        then have "k \<noteq> key j" using dus True by auto
        then show "?G' k = ?G k" by (rule G'other)
      qed
      finally have "map ?G' (uniq ?ks) = butlast gs @ [(key j, snd (last gs) @ [j])]"
        using b b' by simp
      then have 1: "foldl (add_row key) [] (js @ [j]) = map ?G' (uniq (map key (js @ [j])))"
        unfolding f a u by simp
      have 2: "last (uniq (map key (js @ [j]))) = key (last (js @ [j]))"
        unfolding u using IH2 ne True by simp
      show ?thesis using 1 2 by blast
    next
      case False
      have nin: "key j \<notin> set ?ks"
      proof
        assume "key j \<in> set ?ks"
        then obtain i where "i \<in> set js" "key i = key j" by auto
        then have "key j = key (last js)"
          using sorted_key_in_prefix[OF snoc.prems(1) snoc.prems(2) ne] by blast
        then show False using False by simp
      qed
      have u: "uniq (map key (js @ [j])) = uniq ?ks @ [key j]" using nin by (simp add: uniq_snoc)
      have a: "add_row key gs j = gs @ [(key j, [j])]"
        unfolding add_row_def using lg False by simp
      have "filter (\<lambda>i. key i = key j) js = []"
        unfolding filter_empty_conv
      proof
        fix x assume "x \<in> set js"
        then have "key x \<in> set ?ks" by simp
        then show "key x \<noteq> key j" using nin by metis
      qed
      then have gj: "?G' (key j) = (key j, [j])" by simp
      have "map ?G' (uniq ?ks) = map ?G (uniq ?ks)"
      proof (rule map_cong[OF refl])
        fix k assume "k \<in> set (uniq ?ks)"
        then have "k \<in> set ?ks" by (simp only: set_uniq)
        then have "k \<noteq> key j" using nin by metis
        then show "?G' k = ?G k" by (rule G'other)
      qed
      then have "map ?G' (uniq (map key (js @ [j]))) = gs @ [(key j, [j])]"
        unfolding u using IH1 gj by simp
      then have 1: "foldl (add_row key) [] (js @ [j]) = map ?G' (uniq (map key (js @ [j])))"
        unfolding f a by simp
      have 2: "last (uniq (map key (js @ [j]))) = key (last (js @ [j]))"
        unfolding u by simp
      show ?thesis using 1 2 by blast
    qed
  qed
qed

lemma filter_insort_lt:
  "filter (\<lambda>x. key x = k) (insort_lt key x ys)
   = (if key x = k then x # filter (\<lambda>x. key x = k) ys else filter (\<lambda>x. key x = k) ys)"
proof (induction ys)
  case Nil
  show ?case by simp
next
  case (Cons y ys)
  show ?case
  proof (cases "seq_lt (key y) (key x) = Some True")
    case True
    then have "key y \<noteq> key x" using seq_lt_refl[of "key x"] by auto
    then show ?thesis using True Cons by auto
  next
    case False
    then show ?thesis by simp
  qed
qed

lemma filter_stable_sort:
  "filter (\<lambda>x. key x = k) (stable_sort key xs) = filter (\<lambda>x. key x = k) xs"
proof (induction xs)
  case Nil
  show ?case by (simp add: stable_sort_def)
next
  case (Cons x xs)
  have "stable_sort key (x # xs) = insort_lt key x (stable_sort key xs)"
    by (simp add: stable_sort_def)
  then show ?case using Cons by (simp add: filter_insort_lt)
qed



lemma map_of_graph: "c \<in> set xs \<Longrightarrow> map_of (map (\<lambda>c. (c, f c)) xs) c = Some (f c)"
  by (induction xs) auto

lemma group_inv_map:
  assumes "group_inv t gc oc count gs rtn"
    and "distinct (gc @ oc @ (case count of None \<Rightarrow> [] | Some c \<Rightarrow> [c]))"
  shows "rtn = map (\<lambda>c. (c, group_column t gc oc gs c))
                 (gc @ oc @ (case count of None \<Rightarrow> [] | Some c \<Rightarrow> [c]))"
proof (rule alist_eqI)
  let ?K = "gc @ oc @ (case count of None \<Rightarrow> [] | Some c \<Rightarrow> [c])"
  have keys: "map fst rtn = ?K" using assms(1) unfolding group_inv_def by (rule conjunct1)
  show "map fst rtn = map fst (map (\<lambda>c. (c, group_column t gc oc gs c)) ?K)"
    unfolding keys by (simp add: comp_def)
  show "distinct (map fst rtn)" unfolding keys by (rule assms(2))
  have cont: "\<forall>c \<in> set (map fst rtn). map_of rtn c = Some (group_column t gc oc gs c)"
    using assms(1) unfolding group_inv_def by (rule conjunct2)
  show "\<forall>c \<in> set (map fst rtn).
          map_of rtn c = map_of (map (\<lambda>c. (c, group_column t gc oc gs c)) ?K) c"
  proof
    fix c assume c: "c \<in> set (map fst rtn)"
    then have "c \<in> set ?K" unfolding keys .
    then have "map_of (map (\<lambda>c. (c, group_column t gc oc gs c)) ?K) c
               = Some (group_column t gc oc gs c)"
      by (rule map_of_graph)
    moreover have "map_of rtn c = Some (group_column t gc oc gs c)" using cont c by blast
    ultimately show "map_of rtn c = map_of (map (\<lambda>c. (c, group_column t gc oc gs c)) ?K) c"
      by (simp only:)
  qed
qed

lemma filter_sort_perm:
  "filter (\<lambda>j. row_key t gc j = k) (sort_perm t gc False) = group_members t gc k"
  by (simp add: sort_perm_def group_members_def filter_stable_sort)

lemma group_table_eq:
  assumes dK: "distinct (gc @ oc @ (case count of None \<Rightarrow> [] | Some c \<Rightarrow> [c]))"
    and gs: "gs = map (\<lambda>k. (k, filter (\<lambda>j. row_key t gc j = k) (sort_perm t gc False)))
                     (group_keys t gc)"
  shows "map (\<lambda>c. (c, group_column t gc oc gs c))
           (gc @ oc @ (case count of None \<Rightarrow> [] | Some c \<Rightarrow> [c]))
         = group_table t gc oc count"
proof -
  let ?ks = "group_keys t gc"
  have gs': "gs = map (\<lambda>k. (k, group_members t gc k)) ?ks"
    unfolding gs filter_sort_perm ..
  have kin: "\<And>k. k \<in> set ?ks \<Longrightarrow> \<exists>j. k = row_key t gc j"
    by (auto simp: group_keys_def set_uniq)
  have 1: "map (\<lambda>c. (c, group_column t gc oc gs c)) gc
           = map (\<lambda>(i, g). (g, map (\<lambda>k. k ! i) ?ks)) (List.enumerate 0 gc)"
  proof (rule nth_equalityI)
    show "length (map (\<lambda>c. (c, group_column t gc oc gs c)) gc)
          = length (map (\<lambda>(i, g). (g, map (\<lambda>k. k ! i) ?ks)) (List.enumerate 0 gc))"
      by simp
  next
    fix i assume "i < length (map (\<lambda>c. (c, group_column t gc oc gs c)) gc)"
    then have i: "i < length gc" by simp
    then have g: "gc ! i \<in> set gc" by simp
    have "group_column t gc oc gs (gc ! i) = map (\<lambda>k. the (map_of (zip gc k) (gc ! i))) ?ks"
      using g by (simp add: group_column_def gs' comp_def)
    also have "\<dots> = map (\<lambda>k. k ! i) ?ks"
    proof (rule map_cong[OF refl])
      fix k assume "k \<in> set ?ks"
      then obtain j where k: "k = row_key t gc j" using kin by blast
      have "the (map_of (zip gc k) (gc ! i)) = cell t (gc ! i) j"
        unfolding k using g by (rule map_of_zip_row_key)
      also have "\<dots> = k ! i" using i by (simp add: k row_key_def)
      finally show "the (map_of (zip gc k) (gc ! i)) = k ! i" .
    qed
    finally show "map (\<lambda>c. (c, group_column t gc oc gs c)) gc ! i
          = map (\<lambda>(i, g). (g, map (\<lambda>k. k ! i) ?ks)) (List.enumerate 0 gc) ! i"
      using i by (simp add: nth_enumerate_eq)
  qed
  have 2: "map (\<lambda>c. (c, group_column t gc oc gs c)) oc
           = map (\<lambda>c. (c, map (\<lambda>k. VList (map (cell t c) (group_members t gc k))) ?ks)) oc"
  proof (rule map_cong[OF refl])
    fix c assume c: "c \<in> set oc"
    then have "c \<notin> set gc" using dK by auto
    then show "(c, group_column t gc oc gs c)
               = (c, map (\<lambda>k. VList (map (cell t c) (group_members t gc k))) ?ks)"
      using c by (simp add: group_column_def gs' comp_def)
  qed
  have 3: "map (\<lambda>c. (c, group_column t gc oc gs c)) (case count of None \<Rightarrow> [] | Some c \<Rightarrow> [c])
           = (case count of None \<Rightarrow> []
              | Some c \<Rightarrow> [(c, map (\<lambda>k. VInt (int (length (group_members t gc k)))) ?ks)])"
  proof (cases count)
    case None
    then show ?thesis by simp
  next
    case (Some c)
    then have "c \<notin> set gc" "c \<notin> set oc" using dK by auto
    then show ?thesis using Some by (simp add: group_column_def gs' comp_def)
  qed
  show ?thesis unfolding group_table_def map_append 1 2 3 ..
qed

lemma group_by_eq:
  assumes d: "distinct (columns self)" and r: "rectangular self"
    and ne: "self \<noteq> []" and sg: "set gc \<subseteq> set (columns self)"
    and oc: "oc = (case oc_arg of None \<Rightarrow> filter (\<lambda>col. col \<notin> set gc) (columns self) | Some cs \<Rightarrow> cs)"
    and so: "set oc \<subseteq> set (columns self)"
    and dK: "distinct (gc @ oc @ (case count of None \<Rightarrow> [] | Some c \<Rightarrow> [c]))"
  shows "group_by self gc oc_arg count =
     (if \<not> comparable (map (row_key self gc) [0..<record_length self]) then Inl TypeError
      else if record_length self = 0 then Inl KeyError
      else Inr (group_table self gc oc count))"
proof -
  let ?K = "gc @ oc @ (case count of None \<Rightarrow> [] | Some c \<Rightarrow> [c])"
  let ?key = "row_key self gc"
  let ?n = "record_length self"
  let ?p = "sort_perm self gc False"
  define cs where "cs = gc @ filter (\<lambda>col. col \<notin> set gc) (columns self)"
  have dg: "distinct gc" using dK by simp
  have u: "uniq (gc @ filter (\<lambda>col. col \<notin> set gc) (columns self)) = cs"
    unfolding cs_def sort_order_uniq[OF d] by (simp add: uniq_distinct dg)
  have unf: "group_by self gc oc_arg count =
      bind_e (sort_ds self gc False) (\<lambda>sorts.
        bind_e (fold_e (group_step gc oc count) (records sorts)
                  (None, dict_of (map (\<lambda>col. (col, [])) ?K)))
          (\<lambda>st. Dataset (snd st)))"
    unfolding group_by_def Let_def oc ..
  note se = sort_ds_eq[OF d r, of gc False, unfolded u]
  show ?thesis
  proof (cases "comparable (map ?key [0..<?n])")
    case False
    then have "sort_ds self gc False = Inl TypeError" using se sg by simp
    then show ?thesis unfolding unf using False by simp
  next
    case cm: True
    show ?thesis
    proof (cases "?n = 0")
      case True
      then have "sort_ds self gc False = Inl KeyError" using se sg cm ne by simp
      then show ?thesis unfolding unf using cm True by simp
    next
      case False
      then have srt: "sort_ds self gc False = Inr (select_rows self cs ?p)"
        using se sg cm by simp
      have dcs: "distinct cs" using dg d by (auto simp: cs_def)
      have scs: "set cs = set (columns self)" using sg by (auto simp: cs_def)
      have "set (columns self) \<noteq> {}" using ne by (simp add: columns_def)
      then have csne: "cs \<noteq> []" using scs by auto
      have recs: "records (select_rows self cs ?p) = map (record_of self cs) ?p"
        using csne dcs by (rule records_select_rows)
      have kk: "map fst (map (\<lambda>col. (col, [] :: val list)) ?K) = ?K" by (simp add: comp_def)
      have rtn0: "dict_of (map (\<lambda>col. (col, [] :: val list)) ?K) = map (\<lambda>col. (col, [])) ?K"
        by (rule dict_of_distinct) (simp only: kk dK)
      have inv0: "group_inv self gc oc count [] (map (\<lambda>col. (col, [])) ?K)"
        unfolding group_inv_def
      proof (intro conjI ballI)
        show "map fst (map (\<lambda>col. (col, [])) ?K) = ?K" by (simp add: comp_def)
      next
        fix c assume "c \<in> set (map fst (map (\<lambda>col. (col, [])) ?K))"
        then have "c \<in> set ?K" by (simp add: comp_def)
        then have "map_of (map (\<lambda>col. (col, [])) ?K) c = Some []" by (rule map_of_graph)
        then show "map_of (map (\<lambda>col. (col, [])) ?K) c = Some (group_column self gc oc [] c)"
          by (simp add: group_column_Nil)
      qed
      have sgc: "set gc \<subseteq> set cs" and soc: "set oc \<subseteq> set cs" using sg so scs by simp_all
      have "\<exists>st. fold_e (group_step gc oc count) (map (record_of self cs) ?p)
                 (None, map (\<lambda>col. (col, [])) ?K) = Inr st
              \<and> group_inv self gc oc count (foldl (add_row ?key) [] ?p) (snd st)"
        using group_fold[OF dK sgc soc inv0, of ?p] by simp
      then obtain st where st1: "fold_e (group_step gc oc count) (map (record_of self cs) ?p)
                 (None, map (\<lambda>col. (col, [])) ?K) = Inr st"
          and st2: "group_inv self gc oc count (foldl (add_row ?key) [] ?p) (snd st)"
        by blast
      have sorted: "sorted_wrt (\<lambda>a b. seq_lt (?key b) (?key a) \<noteq> Some True) ?p"
        using sort_perm_sorted[OF cm, of False] by simp
      have cmp: "comparable (map ?key ?p)"
        using cm unfolding comparable_def by (simp add: set_sort_perm)
      have gs: "foldl (add_row ?key) [] ?p
                = map (\<lambda>k. (k, filter (\<lambda>j. ?key j = k) ?p)) (group_keys self gc)"
        using runs_sorted[OF sorted cmp] by (simp add: group_keys_def)
      have tab: "snd st = map (\<lambda>c. (c, group_column self gc oc (foldl (add_row ?key) [] ?p) c)) ?K"
        using st2 dK by (rule group_inv_map)
      have fin: "snd st = group_table self gc oc count"
        unfolding tab using dK gs by (rule group_table_eq)
      have "rectangular (snd st)"
        unfolding tab rectangular_def by (auto simp: length_group_column)
      then have "Dataset (snd st) = Inr (snd st)" by (simp add: Dataset_eq)
      then have "group_by self gc oc_arg count = Inr (snd st)"
        unfolding unf srt bind_e_simps recs rtn0 st1 by simp
      then show ?thesis using cm False fin by simp
    qed
  qed
qed




section \<open>group\_by: the checks on the grouping columns\<close>

lemma removeAll_all: "set ys \<subseteq> {x} \<Longrightarrow> removeAll x ys = []"
  by (induction ys) auto

lemma uniq_replicate: "0 < n \<Longrightarrow> uniq (replicate n x) = [x]"
proof (induction n)
  case 0
  then show ?case by simp
next
  case (Suc n)
  have "set (uniq (replicate n x)) \<subseteq> {x}" by (auto simp: set_uniq)
  then have "removeAll x (uniq (replicate n x)) = []"
    by (rule removeAll_all)
  then show ?case by simp
qed

lemma group_by_no_grouping_cols:
  assumes d: "distinct (columns self)" and r: "rectangular self" and n: "0 < record_length self"
  shows "group_by self [] None None = Inr (map (\<lambda>(c, col). (c, [VList col])) self)"
proof -
  let ?n = "record_length self"
  have ne: "self \<noteq> []" using n record_length_Nil by auto
  have 1: "set [] \<subseteq> set (columns self)" by simp
  have 2: "columns self = (case None :: string list option of
              None \<Rightarrow> filter (\<lambda>col. col \<notin> set []) (columns self) | Some cs \<Rightarrow> cs)"
    by simp
  have 3: "set (columns self) \<subseteq> set (columns self)" by simp
  have 4: "distinct ([] @ columns self @ (case None :: string option of None \<Rightarrow> [] | Some c \<Rightarrow> [c]))"
    using d by simp
  have cm: "comparable (map (row_key self []) [0..<?n])"
    by (auto simp: comparable_def row_key_def)
  have n0: "record_length self \<noteq> 0" using n by simp
  have e: "group_by self [] None None = Inr (group_table self [] (columns self) None)"
    unfolding group_by_eq[OF d r ne 1 2 3 4] using cm n0 by (simp only: not_True_eq_False if_False)
  have rk: "row_key self [] = (\<lambda>j. [])" by (simp add: row_key_def fun_eq_iff)
  have "map (row_key self []) (sort_perm self [] False) = replicate ?n []"
    unfolding rk by (simp add: map_replicate_const length_sort_perm)
  then have gk: "group_keys self [] = [[]]"
    using n by (simp add: group_keys_def uniq_replicate)
  have gm: "group_members self [] [] = [0..<?n]"
    by (simp add: group_members_def row_key_def)
  have cells: "\<And>x. x \<in> set self \<Longrightarrow> map (cell self (fst x)) [0..<?n] = snd x"
  proof -
    fix x assume x: "x \<in> set self"
    have "distinct (map fst self)" using d by (simp add: columns_def)
    then have m: "map_of self (fst x) = Some (snd x)" using x by simp
    have "length (snd x) = ?n" using r x by (metis prod.collapse rectangular_length)
    then have "map ((!) (snd x)) [0..<?n] = snd x" using map_nth[of "snd x"] by simp
    then show "map (cell self (fst x)) [0..<?n] = snd x"
      unfolding cell_def m by simp
  qed
  have "group_table self [] (columns self) None
        = map (\<lambda>c. (c, [VList (map (cell self c) [0..<?n])])) (columns self)"
    by (simp add: group_table_def gk gm)
  also have "\<dots> = map (\<lambda>x. (fst x, [VList (map (cell self (fst x)) [0..<?n])])) self"
    by (simp add: columns_def comp_def)
  also have "\<dots> = map (\<lambda>x. (fst x, [VList (snd x)])) self"
    by (rule map_cong[OF refl]) (simp add: cells)
  also have "\<dots> = map (\<lambda>(c, col). (c, [VList col])) self"
    by (simp add: case_prod_beta)
  finally show ?thesis using e by simp
qed

text \<open>
  C8, the counterexample: an empty list of grouping columns is not rejected. The table is
  returned as one group, every column holding the list of all its values.
\<close>

theorem group_by_empty_counterexample:
  "group_by [(''id'', [VInt 1, VInt 1, VInt 2]), (''x'', [VInt 10, VInt 20, VInt 30])] [] None None
   = Inr [(''id'', [VList [VInt 1, VInt 1, VInt 2]]), (''x'', [VList [VInt 10, VInt 20, VInt 30]])]"
  by code_simp

text \<open>
  C8 as amended: \<open>group_by\<close> fails, with the assertion of \<open>sort\<close> and before any result is
  built, whenever the list of grouping columns contains a name that is not a column of
  the table. An empty list of grouping columns is not rejected: on a valid table with at
  least one row, with the default other columns and no count column, \<open>group_by\<close> returns
  one row in which every column holds the list of all its values.
\<close>

theorem group_by_unknown_column_fails:
  "(\<not> set grouping_cols \<subseteq> set (columns self)
      \<longrightarrow> group_by self grouping_cols other_cols count = Inl AssertionError)
   \<and> (distinct (columns self) \<and> rectangular self \<and> 0 < record_length self
      \<longrightarrow> group_by self [] None None = Inr (map (\<lambda>(c, col). (c, [VList col])) self))"
proof (intro conjI impI)
  assume "\<not> set grouping_cols \<subseteq> set (columns self)"
  then have "\<not> (\<forall>name \<in> set grouping_cols. name \<in> set (columns self))" by blast
  then have "sort_ds self grouping_cols False = Inl AssertionError"
    unfolding sort_ds_def by (rule if_P)
  then show "group_by self grouping_cols other_cols count = Inl AssertionError"
    unfolding group_by_def Let_def by simp
next
  assume "distinct (columns self) \<and> rectangular self \<and> 0 < record_length self"
  then have "distinct (columns self)" "rectangular self" "0 < record_length self" by blast+
  then show "group_by self [] None None = Inr (map (\<lambda>(c, col). (c, [VList col])) self)"
    by (rule group_by_no_grouping_cols)
qed

theorem group_by_unknown_column_fails_witness:
  "group_by [(''id'', [VInt 1]), (''x'', [VInt 10])] [''zz''] None None = Inl AssertionError
   \<and> group_by [(''id'', [VInt 1, VInt 1, VInt 2]), (''x'', [VInt 10, VInt 20, VInt 30])] [] None None
     = Inr [(''id'', [VList [VInt 1, VInt 1, VInt 2]]), (''x'', [VList [VInt 10, VInt 20, VInt 30]])]"
proof -
  let ?T = "[(''id'', [VInt 1, VInt 1, VInt 2]), (''x'', [VInt 10, VInt 20, VInt 30])]"
  have h: "\<not> set [''zz''] \<subseteq> set (columns [(''id'', [VInt 1]), (''x'', [VInt 10])])"
    by (simp add: columns_def)
  have 1: "distinct (columns ?T)" by (simp add: columns_def)
  have 2: "rectangular ?T" by (simp add: rectangular_def)
  have 3: "0 < record_length ?T" by code_simp
  have a: "group_by [(''id'', [VInt 1]), (''x'', [VInt 10])] [''zz''] None None = Inl AssertionError"
    using group_by_unknown_column_fails[of "[''zz'']" "[(''id'', [VInt 1]), (''x'', [VInt 10])]" None None]
      h by blast
  have "group_by ?T [] None None = Inr (map (\<lambda>(c, col). (c, [VList col])) ?T)"
    using group_by_unknown_column_fails[of "[]" ?T None None] 1 2 3 by blast
  then have b: "group_by ?T [] None None
     = Inr [(''id'', [VList [VInt 1, VInt 1, VInt 2]]), (''x'', [VList [VInt 10, VInt 20, VInt 30]])]"
    by simp
  show ?thesis using a b by (rule conjI)
qed

section \<open>merge on key columns\<close>

text \<open>
  C3 (join multiplicity: inner gives n*m rows per key, left keeps every left row, full
  has at least as many rows as inner, left and right). The left table has the keys 1 and
  2, the right table the key 2 and one more column. The inner and the right merge return the one
  matching row. The left and the full merge must keep the left row with key 1; they
  build the null pseudo-row of the right side with the number of columns of the left
  table and raise \<open>IndexError\<close> when they read the right table's second column from it, so
  they return no table at all.
\<close>

theorem merge_left_and_full_lose_unmatched_rows:
  "merge [(''id'', [VInt 1, VInt 2])] [(''id'', [VInt 2]), (''w'', [VInt 5])] (Some [''id'']) ''inner''
     = Inr [(''id'', [VInt 2]), (''w'', [VInt 5])]
   \<and> merge [(''id'', [VInt 1, VInt 2])] [(''id'', [VInt 2]), (''w'', [VInt 5])] (Some [''id'']) ''right''
     = Inr [(''id'', [VInt 2]), (''w'', [VInt 5])]
   \<and> merge [(''id'', [VInt 1, VInt 2])] [(''id'', [VInt 2]), (''w'', [VInt 5])] (Some [''id'']) ''left''
     = Inl IndexError
   \<and> merge [(''id'', [VInt 1, VInt 2])] [(''id'', [VInt 2]), (''w'', [VInt 5])] (Some [''id'']) ''full''
     = Inl IndexError"
  by code_simp

end
